theory Spec2Isabelle
  imports Complex_Main "HOL-Library.AList"
begin

section \<open>Data model of the AI wargame\<close>

text \<open>Exceptions the Python code can raise are values of this type; a function that can
  raise returns \<open>error + 'a\<close>, with \<open>Inl\<close> the raised exception.\<close>

datatype error = IndexError | UnboundLocalError | TypeError | AttributeError

datatype UnitType = AI | Tech | Virus | Program | Firewall

datatype Player = Attacker | Defender

fun Player_next :: "Player \<Rightarrow> Player" where
  "Player_next Attacker = Defender"
| "Player_next Defender = Attacker"

fun Player_name :: "Player \<Rightarrow> string" where
  "Player_name Attacker = ''Attacker''"
| "Player_name Defender = ''Defender''"

record Unit =
  player :: Player
  type :: UnitType
  health :: int

fun UnitType_value :: "UnitType \<Rightarrow> nat" where
  "UnitType_value AI = 0"
| "UnitType_value Tech = 1"
| "UnitType_value Virus = 2"
| "UnitType_value Program = 3"
| "UnitType_value Firewall = 4"

text \<open>The two class-level tables, indexed by the actor's type value, then the target's.
  Both indices are enum values in \<open>{0..4}\<close>, inside the 5x5 tables.\<close>

definition damage_table :: "int list list" where
  "damage_table =
    [[3, 3, 3, 3, 1],
     [1, 1, 6, 1, 1],
     [9, 6, 1, 6, 1],
     [3, 3, 3, 3, 1],
     [1, 1, 1, 1, 1]]"

definition repair_table :: "int list list" where
  "repair_table =
    [[0, 1, 1, 0, 0],
     [3, 0, 0, 3, 3],
     [0, 0, 0, 0, 0],
     [0, 0, 0, 0, 0],
     [0, 0, 0, 0, 0]]"

definition is_alive :: "Unit \<Rightarrow> bool" where
  "is_alive u = (health u > 0)"

definition Unit_mod_health :: "Unit \<Rightarrow> int \<Rightarrow> Unit" where
  "Unit_mod_health u health_delta =
     (let h = health u + health_delta in
      if h < 0 then u\<lparr>health := 0\<rparr>
      else if h > 9 then u\<lparr>health := 9\<rparr>
      else u\<lparr>health := h\<rparr>)"

definition damage_amount :: "Unit \<Rightarrow> Unit \<Rightarrow> int" where
  "damage_amount actor target =
     (let amount = damage_table ! UnitType_value (type actor) ! UnitType_value (type target) in
      if health target - amount < 0 then health target else amount)"

definition repair_amount :: "Unit \<Rightarrow> Unit \<Rightarrow> int" where
  "repair_amount actor target =
     (let amount = repair_table ! UnitType_value (type actor) ! UnitType_value (type target) in
      if health target + amount > 9 then 9 - health target else amount)"

subsection \<open>Coordinates\<close>

text \<open>Python indexing of a sequence: a negative index counts from the end, and an index
  outside \<open>[-len, len)\<close> raises IndexError.\<close>

definition py_index :: "'a list \<Rightarrow> int \<Rightarrow> error + 'a" where
  "py_index xs i =
     (if 0 \<le> i \<and> i < int (length xs) then Inr (xs ! nat i)
      else if - int (length xs) \<le> i \<and> i < 0 then Inr (xs ! nat (int (length xs) + i))
      else Inl IndexError)"

record Coord =
  row :: int
  col :: int

definition col_string :: "Coord \<Rightarrow> error + string" where
  "col_string c =
     (if col c < 16 then
        (case py_index ''0123456789abcdef'' (col c) of
           Inl err \<Rightarrow> Inl err
         | Inr ch \<Rightarrow> Inr [ch])
      else Inr ''?'')"

definition row_string :: "Coord \<Rightarrow> error + string" where
  "row_string c =
     (if row c < 26 then
        (case py_index ''ABCDEFGHIJKLMNOPQRSTUVWXYZ'' (row c) of
           Inl err \<Rightarrow> Inl err
         | Inr ch \<Rightarrow> Inr [ch])
      else Inr ''?'')"

definition Coord_to_string :: "Coord \<Rightarrow> error + string" where
  "Coord_to_string c =
     (case row_string c of
        Inl err \<Rightarrow> Inl err
      | Inr r \<Rightarrow> (case col_string c of Inl err \<Rightarrow> Inl err | Inr k \<Rightarrow> Inr (r @ k)))"

text \<open>\<open>range(lo, hi)\<close> over Python integers.\<close>

definition py_range :: "int \<Rightarrow> int \<Rightarrow> int list" where
  "py_range lo hi = [lo..hi - 1]"

definition iter_range :: "Coord \<Rightarrow> int \<Rightarrow> Coord list" where
  "iter_range c radius =
     concat (map (\<lambda>r. map (\<lambda>k. \<lparr>row = r, col = k\<rparr>) (py_range (col c - radius) (col c + 1 + radius)))
                 (py_range (row c - radius) (row c + 1 + radius)))"

definition iter_adjacent :: "Coord \<Rightarrow> Coord list" where
  "iter_adjacent c =
     [\<lparr>row = row c - 1, col = col c\<rparr>,
      \<lparr>row = row c, col = col c - 1\<rparr>,
      \<lparr>row = row c + 1, col = col c\<rparr>,
      \<lparr>row = row c, col = col c + 1\<rparr>]"

record CoordPair =
  src :: Coord
  dst :: Coord

definition iter_rectangle :: "CoordPair \<Rightarrow> Coord list" where
  "iter_rectangle p =
     concat (map (\<lambda>r. map (\<lambda>k. \<lparr>row = r, col = k\<rparr>) (py_range (col (src p)) (col (dst p) + 1)))
                 (py_range (row (src p)) (row (dst p) + 1)))"

definition from_dim :: "int \<Rightarrow> CoordPair" where
  "from_dim d = \<lparr>src = \<lparr>row = 0, col = 0\<rparr>, dst = \<lparr>row = d - 1, col = d - 1\<rparr>\<rparr>"

subsection \<open>Options, statistics and the game state\<close>

record Options =
  dim :: int
  max_depth :: "int option"
  max_turns :: "int option"
  opt_alpha_beta :: bool
  heuristic :: int

text \<open>The running average is a Python float; it is modelled by an exact rational. The
  sample count starts at 0 and is only ever incremented, so it is a natural number. The
  dictionary \<open>evaluations_per_depth\<close> is an association list in insertion order.\<close>

record Stats =
  evaluations_per_depth :: "(int \<times> int) list"
  average_branching_factor :: rat
  average_branching_size :: nat

text \<open>The game state. \<open>clock_reads\<close> is a ghost field: the number of times the search has read
  the wall clock since \<open>current_start_time\<close>; the outcome of the k-th comparison
  \<open>elapsed_seconds >= max_time_adjusted\<close> is given by an oracle \<open>nat \<Rightarrow> bool\<close> that the
  search functions take as their first argument. A board is a list of rows; the value model
  has no sharing between cells, as in every board built by the program (each cell holds its
  own Unit object and clones are deep copies).\<close>

record Game =
  board :: "Unit option list list"
  next_player :: Player
  turns_played :: int
  options :: Options
  stats :: Stats
  attacker_has_ai :: bool
  defender_has_ai :: bool
  is_time_out :: bool
  current_depth :: int
  clock_reads :: nat

definition is_valid_coord :: "Game \<Rightarrow> Coord \<Rightarrow> bool" where
  "is_valid_coord g c =
     (if row c < 0 \<or> row c \<ge> dim (options g) \<or> col c < 0 \<or> col c \<ge> dim (options g)
      then False else True)"

definition get :: "Game \<Rightarrow> Coord \<Rightarrow> error + Unit option" where
  "get g c =
     (if is_valid_coord g c then
        (case py_index (board g) (row c) of
           Inl err \<Rightarrow> Inl err
         | Inr r \<Rightarrow> py_index r (col c))
      else Inr None)"

text \<open>Item assignment \<open>xs[i] = v\<close>: same index rule as reading.\<close>

definition py_setitem :: "'a list \<Rightarrow> int \<Rightarrow> 'a \<Rightarrow> error + 'a list" where
  "py_setitem xs i v =
     (if 0 \<le> i \<and> i < int (length xs) then Inr (xs[nat i := v])
      else if - int (length xs) \<le> i \<and> i < 0 then Inr (xs[nat (int (length xs) + i) := v])
      else Inl IndexError)"

definition set_cell :: "Game \<Rightarrow> Coord \<Rightarrow> Unit option \<Rightarrow> error + Game" where
  "set_cell g c unit =
     (if is_valid_coord g c then
        (case py_index (board g) (row c) of
           Inl err \<Rightarrow> Inl err
         | Inr r \<Rightarrow>
            (case py_setitem r (col c) unit of
               Inl err \<Rightarrow> Inl err
             | Inr r' \<Rightarrow>
                (case py_setitem (board g) (row c) r' of
                   Inl err \<Rightarrow> Inl err
                 | Inr b' \<Rightarrow> Inr (g\<lparr>board := b'\<rparr>))))
      else Inr g)"

definition remove_dead :: "Game \<Rightarrow> Coord \<Rightarrow> error + Game" where
  "remove_dead g c =
     (case get g c of
        Inl err \<Rightarrow> Inl err
      | Inr None \<Rightarrow> Inr g
      | Inr (Some unit) \<Rightarrow>
         (if \<not> is_alive unit then
            (case set_cell g c None of
               Inl err \<Rightarrow> Inl err
             | Inr g' \<Rightarrow>
                 if type unit = AI then
                   (if player unit = Attacker then Inr (g'\<lparr>attacker_has_ai := False\<rparr>)
                    else Inr (g'\<lparr>defender_has_ai := False\<rparr>))
                 else Inr g')
          else Inr g))"

text \<open>\<open>Game.mod_health\<close>: the unit object in the cell is mutated in place, which in the value
  model is storing the modified unit back into its cell.\<close>

definition mod_health :: "Game \<Rightarrow> Coord \<Rightarrow> int \<Rightarrow> error + Game" where
  "mod_health g c health_delta =
     (case get g c of
        Inl err \<Rightarrow> Inl err
      | Inr None \<Rightarrow> Inr g
      | Inr (Some target) \<Rightarrow>
          (case set_cell g c (Some (Unit_mod_health target health_delta)) of
             Inl err \<Rightarrow> Inl err
           | Inr g' \<Rightarrow> remove_dead g' c))"

subsection \<open>Legality predicates\<close>

text \<open>The loop of \<open>is_valid_move\<close> over the four neighbours of the source: True when some
  neighbour makes the method return False (the unit is engaged in combat).\<close>

fun engaged :: "Game \<Rightarrow> Unit \<Rightarrow> Coord list \<Rightarrow> error + bool" where
  "engaged g unit [] = Inr False"
| "engaged g unit (adj_coord # rest) =
     (case get g adj_coord of
        Inl err \<Rightarrow> Inl err
      | Inr None \<Rightarrow> engaged g unit rest
      | Inr (Some adj_unit) \<Rightarrow>
         (if type unit \<in> {AI, Firewall, Program} \<and> player adj_unit \<noteq> player unit then Inr True
          else engaged g unit rest))"

definition is_valid_move :: "Game \<Rightarrow> CoordPair \<Rightarrow> error + bool" where
  "is_valid_move g coords =
     (if \<not> is_valid_coord g (src coords) \<or> \<not> is_valid_coord g (dst coords) then Inr False
      else
       (case get g (src coords) of
          Inl err \<Rightarrow> Inl err
        | Inr None \<Rightarrow> Inr False
        | Inr (Some unit0) \<Rightarrow>
           (if player unit0 \<noteq> next_player g then Inr False
            else
             (case get g (dst coords) of
                Inl err \<Rightarrow> Inl err
              | Inr (Some _) \<Rightarrow> Inr False
              | Inr None \<Rightarrow>
                 (case get g (src coords) of
                    Inl err \<Rightarrow> Inl err
                  | Inr None \<Rightarrow> Inl AttributeError
                  | Inr (Some unit) \<Rightarrow>
                     (if player unit = Attacker \<and> type unit \<in> {AI, Firewall, Program}
                         \<and> (row (dst coords) > row (src coords) \<or> col (dst coords) > col (src coords))
                      then Inr False
                      else if player unit = Defender \<and> type unit \<in> {AI, Firewall, Program}
                         \<and> (row (dst coords) < row (src coords) \<or> col (dst coords) < col (src coords))
                      then Inr False
                      else
                       (case engaged g unit (iter_adjacent (src coords)) of
                          Inl err \<Rightarrow> Inl err
                        | Inr True \<Rightarrow> Inr False
                        | Inr False \<Rightarrow>
                           (if dst coords \<in> set (iter_adjacent (src coords)) then Inr True
                            else Inr False))))))))"

definition is_valid_attack :: "Game \<Rightarrow> CoordPair \<Rightarrow> error + bool" where
  "is_valid_attack g coords =
     (if \<not> is_valid_coord g (src coords) \<or> \<not> is_valid_coord g (dst coords) then Inr False
      else
       (case get g (src coords) of
        Inl err \<Rightarrow> Inl err
      | Inr unit_s \<Rightarrow>
         (case get g (dst coords) of
            Inl err \<Rightarrow> Inl err
          | Inr unit_t \<Rightarrow>
             (case (unit_s, unit_t) of
                (Some s, Some t) \<Rightarrow>
                  (if player s = player t then Inr False
                   else if dst coords \<in> set (iter_adjacent (src coords)) then Inr True
                   else Inr False)
              | _ \<Rightarrow> Inr False))))"

definition is_valid_repair :: "Game \<Rightarrow> CoordPair \<Rightarrow> error + bool" where
  "is_valid_repair g coords =
     (if \<not> is_valid_coord g (src coords) \<or> \<not> is_valid_coord g (dst coords) then Inr False
      else
       (case get g (src coords) of
        Inl err \<Rightarrow> Inl err
      | Inr unit_s \<Rightarrow>
         (case get g (dst coords) of
            Inl err \<Rightarrow> Inl err
          | Inr unit_t \<Rightarrow>
             (case (unit_s, unit_t) of
                (Some s, Some t) \<Rightarrow>
                  (if player s \<noteq> player t then Inr False
                   else if repair_amount s t = 0 then Inr False
                   else if dst coords \<in> set (iter_adjacent (src coords)) then Inr True
                   else Inr False)
              | _ \<Rightarrow> Inr False))))"

definition can_self_destruct :: "Game \<Rightarrow> CoordPair \<Rightarrow> error + bool" where
  "can_self_destruct g coords =
     (if \<not> is_valid_coord g (src coords) \<or> \<not> is_valid_coord g (dst coords) then Inr False
      else
       (case get g (src coords) of
        Inl err \<Rightarrow> Inl err
      | Inr None \<Rightarrow> Inr False
      | Inr (Some _) \<Rightarrow> (if src coords = dst coords then Inr True else Inr False)))"

subsection \<open>Applying an action\<close>

text \<open>\<open>str\<close> of a Python integer, for the turn number in the action description.\<close>

function str_nat :: "nat \<Rightarrow> string" where
  "str_nat n =
     (if n < 10 then [''0123456789'' ! n]
      else str_nat (n div 10) @ [''0123456789'' ! (n mod 10)])"
  by pat_completeness auto
termination
  by (relation "measure (\<lambda>n. n)") auto

declare str_nat.simps [simp del]

definition str_int :: "int \<Rightarrow> string" where
  "str_int i = (if i < 0 then CHR ''-'' # str_nat (nat (- i)) else str_nat (nat i))"

text \<open>The f-strings of \<open>perform_move\<close>: formatting a coordinate calls \<open>Coord.to_string\<close>,
  which can raise.\<close>

definition action_taken_str :: "Game \<Rightarrow> string \<Rightarrow> CoordPair \<Rightarrow> error + string" where
  "action_taken_str g kind coords =
     (case Coord_to_string (src coords) of
        Inl err \<Rightarrow> Inl err
      | Inr s \<Rightarrow>
         (case Coord_to_string (dst coords) of
            Inl err \<Rightarrow> Inl err
          | Inr d \<Rightarrow>
              Inr (Player_name (next_player g) @ '' - turn #'' @ str_int (turns_played g + 1)
                   @ '': '' @ kind @ '' '' @ s @ '' -> '' @ d)))"

definition invalid_move_str :: "Game \<Rightarrow> CoordPair \<Rightarrow> error + string" where
  "invalid_move_str g coords =
     (case Coord_to_string (src coords) of
        Inl err \<Rightarrow> Inl err
      | Inr s \<Rightarrow>
         (case Coord_to_string (dst coords) of
            Inl err \<Rightarrow> Inl err
          | Inr d \<Rightarrow>
              Inr (Player_name (next_player g) @ '' performed an invalid move '' @ s @ '' -> '' @ d)))"

text \<open>The loop of the self-destruct branch over the 3x3 neighbourhood.\<close>

fun mod_health_all :: "Game \<Rightarrow> Coord list \<Rightarrow> int \<Rightarrow> error + Game" where
  "mod_health_all g [] health_delta = Inr g"
| "mod_health_all g (c # cs) health_delta =
     (case mod_health g c health_delta of
        Inl err \<Rightarrow> Inl err
      | Inr g' \<Rightarrow> mod_health_all g' cs health_delta)"

definition with_description :: "error + string \<Rightarrow> bool \<Rightarrow> Game \<Rightarrow> error + (bool \<times> string \<times> Game)" where
  "with_description text ok g =
     (case text of Inl err \<Rightarrow> Inl err | Inr t \<Rightarrow> Inr (ok, t, g))"

text \<open>\<open>perform_move\<close> mutates the game and returns (success, description); the model returns
  the new game as third component.\<close>

definition perform_move :: "Game \<Rightarrow> CoordPair \<Rightarrow> error + (bool \<times> string \<times> Game)" where
  "perform_move g coords =
     (case is_valid_move g coords of
        Inl err \<Rightarrow> Inl err
      | Inr True \<Rightarrow>
         (case get g (src coords) of
            Inl err \<Rightarrow> Inl err
          | Inr unit \<Rightarrow>
             (case set_cell g (dst coords) unit of
                Inl err \<Rightarrow> Inl err
              | Inr g1 \<Rightarrow>
                 (case set_cell g1 (src coords) None of
                    Inl err \<Rightarrow> Inl err
                  | Inr g2 \<Rightarrow> with_description (action_taken_str g2 ''move'' coords) True g2)))
      | Inr False \<Rightarrow>
     (case is_valid_attack g coords of
        Inl err \<Rightarrow> Inl err
      | Inr True \<Rightarrow>
         (case get g (src coords) of
            Inl err \<Rightarrow> Inl err
          | Inr None \<Rightarrow> Inl AttributeError
          | Inr (Some unit_s) \<Rightarrow>
             (case get g (dst coords) of
                Inl err \<Rightarrow> Inl err
              | Inr None \<Rightarrow> Inl AttributeError
              | Inr (Some unit_t) \<Rightarrow>
                 (let damage_on_t = damage_amount unit_s unit_t;
                      damage_on_s = damage_amount unit_t unit_s
                  in (case mod_health g (src coords) (- damage_on_s) of
                       Inl err \<Rightarrow> Inl err
                     | Inr g1 \<Rightarrow>
                        (case mod_health g1 (dst coords) (- damage_on_t) of
                           Inl err \<Rightarrow> Inl err
                         | Inr g2 \<Rightarrow>
                             with_description (action_taken_str g2 ''attack'' coords) True g2)))))
      | Inr False \<Rightarrow>
     (case is_valid_repair g coords of
        Inl err \<Rightarrow> Inl err
      | Inr True \<Rightarrow>
         (case get g (src coords) of
            Inl err \<Rightarrow> Inl err
          | Inr None \<Rightarrow> Inl AttributeError
          | Inr (Some unit_s) \<Rightarrow>
             (case get g (dst coords) of
                Inl err \<Rightarrow> Inl err
              | Inr None \<Rightarrow> Inl AttributeError
              | Inr (Some unit_t) \<Rightarrow>
                 (case mod_health g (dst coords) (repair_amount unit_s unit_t) of
                    Inl err \<Rightarrow> Inl err
                  | Inr g1 \<Rightarrow> with_description (action_taken_str g1 ''repair'' coords) True g1)))
      | Inr False \<Rightarrow>
     (case can_self_destruct g coords of
        Inl err \<Rightarrow> Inl err
      | Inr True \<Rightarrow>
         (case mod_health g (src coords) (- 9) of
            Inl err \<Rightarrow> Inl err
          | Inr g1 \<Rightarrow>
             (case mod_health_all g1 (iter_range (src coords) 1) (- 2) of
                Inl err \<Rightarrow> Inl err
              | Inr g2 \<Rightarrow>
                  with_description (action_taken_str g2 ''self-destruct'' coords) True g2))
      | Inr False \<Rightarrow> with_description (invalid_move_str g coords) False g))))"

definition next_turn :: "Game \<Rightarrow> Game" where
  "next_turn g = g\<lparr>next_player := Player_next (next_player g), turns_played := turns_played g + 1\<rparr>"

definition has_winner :: "Game \<Rightarrow> Player option" where
  "has_winner g =
     (if max_turns (options g) \<noteq> None \<and> turns_played g \<ge> the (max_turns (options g))
      then Some Defender
      else if attacker_has_ai g then
        (if defender_has_ai g then None else Some Attacker)
      else Some Defender)"

definition is_finished :: "Game \<Rightarrow> bool" where
  "is_finished g = (has_winner g \<noteq> None)"

subsection \<open>Generators\<close>

text \<open>A Python generator that reads an unchanging game is modelled by the list of the items
  it yields together with the exception that ends it, if one does: a consumer that stops
  early (\<open>break\<close>, \<open>return\<close>) never sees that exception, one that exhausts the generator does.\<close>

type_synonym 'a gen = "'a list \<times> error option"

fun player_units_from :: "Game \<Rightarrow> Player \<Rightarrow> Coord list \<Rightarrow> (Coord \<times> Unit) gen" where
  "player_units_from g p [] = ([], None)"
| "player_units_from g p (coord # rest) =
     (case get g coord of
        Inl err \<Rightarrow> ([], Some err)
      | Inr None \<Rightarrow> player_units_from g p rest
      | Inr (Some unit) \<Rightarrow>
         (if player unit = p then
            (case player_units_from g p rest of (xs, stop) \<Rightarrow> ((coord, unit) # xs, stop))
          else player_units_from g p rest))"

definition player_units :: "Game \<Rightarrow> Player \<Rightarrow> (Coord \<times> Unit) gen" where
  "player_units g p = player_units_from g p (iter_rectangle (from_dim (dim (options g))))"

subsection \<open>Heuristics\<close>

definition MAX_HEURISTIC_SCORE :: int where
  "MAX_HEURISTIC_SCORE = 2000000000"

definition MIN_HEURISTIC_SCORE :: int where
  "MIN_HEURISTIC_SCORE = - 2000000000"

text \<open>A \<open>for\<close> loop over all of a generator that only accumulates a count: the count after
  the yielded items, unless the generator ends with an exception.\<close>

definition exhaust :: "error option \<Rightarrow> 'a \<Rightarrow> error + 'a" where
  "exhaust stop v = (case stop of Some err \<Rightarrow> Inl err | None \<Rightarrow> Inr v)"

fun e0_loop :: "(Coord \<times> Unit) list \<Rightarrow> int \<Rightarrow> int" where
  "e0_loop [] count = count"
| "e0_loop ((_, unit) # rest) count =
     e0_loop rest
       (if type unit \<in> {Virus, Tech, Firewall, Program} then count + 3
        else if type unit = AI then count + 9999
        else count)"

definition e0 :: "Game \<Rightarrow> error + int" where
  "e0 game =
     (case player_units game Attacker of (us_a, stop_a) \<Rightarrow>
        (case exhaust stop_a (e0_loop us_a 0) of
           Inl err \<Rightarrow> Inl err
         | Inr count_attacker \<Rightarrow>
            (case player_units game Defender of (us_d, stop_d) \<Rightarrow>
               (case exhaust stop_d (e0_loop us_d 0) of
                  Inl err \<Rightarrow> Inl err
                | Inr count_defender \<Rightarrow> Inr (count_attacker - count_defender)))))"

fun e1_loop :: "(Coord \<times> Unit) list \<Rightarrow> int \<Rightarrow> int" where
  "e1_loop [] count = count"
| "e1_loop ((_, unit) # rest) count =
     e1_loop rest
       (if type unit \<in> {Virus, Tech, Firewall, Program} then count + 3 * health unit
        else if type unit = AI then count + 999 * health unit
        else count)"

definition e1 :: "Game \<Rightarrow> error + int" where
  "e1 game =
     (case player_units game Attacker of (us_a, stop_a) \<Rightarrow>
        (case exhaust stop_a (e1_loop us_a 0) of
           Inl err \<Rightarrow> Inl err
         | Inr count_attacker \<Rightarrow>
            (case player_units game Defender of (us_d, stop_d) \<Rightarrow>
               (case exhaust stop_d (e1_loop us_d 0) of
                  Inl err \<Rightarrow> Inl err
                | Inr count_defender \<Rightarrow> Inr (count_attacker - count_defender)))))"

text \<open>The inner loop of \<open>helper_e2\<close> over the 3x3 neighbourhood of one unit.\<close>

fun helper_e2_adj :: "Game \<Rightarrow> Unit \<Rightarrow> Coord list \<Rightarrow> int \<Rightarrow> error + int" where
  "helper_e2_adj game unit [] count = Inr count"
| "helper_e2_adj game unit (coord_adj # rest) count =
     (case get game coord_adj of
        Inl err \<Rightarrow> Inl err
      | Inr None \<Rightarrow> helper_e2_adj game unit rest count
      | Inr (Some unit_adj) \<Rightarrow>
         (if player unit_adj \<noteq> next_player game then
            (if damage_amount unit_adj unit \<ge> health unit then
               helper_e2_adj game unit rest
                 (if type unit \<in> {Firewall, Program} then count - 2 * health unit
                  else if type unit \<in> {Virus, Tech} then count - 5 * health unit
                  else if type unit = AI then count - 9999 * health unit
                  else count)
             else helper_e2_adj game unit rest count)
          else
            (let count1 = (if type unit = AI then count + 999 else count);
                 repair = repair_amount unit_adj unit
             in if repair > 0 \<and> health unit < 9 then
                  helper_e2_adj game unit rest
                    (if type unit \<in> {Firewall, Program} then count1 + 2 * repair
                     else if type unit \<in> {Virus, Tech} then count1 + 5 * repair
                     else if type unit = AI then count1 + 9999 * repair
                     else count1)
                else helper_e2_adj game unit rest count1)))"

fun helper_e2_loop :: "Game \<Rightarrow> (Coord \<times> Unit) list \<Rightarrow> int \<Rightarrow> error + int" where
  "helper_e2_loop game [] count = Inr count"
| "helper_e2_loop game ((coord, unit) # rest) count =
     (let count1 =
        (if type unit \<in> {Firewall, Program} then count + 3 * health unit
         else if type unit \<in> {Virus, Tech} then count + 9 * health unit
         else if type unit = AI then count + 99999 * health unit
         else count)
      in case helper_e2_adj game unit (iter_range coord 1) count1 of
           Inl err \<Rightarrow> Inl err
         | Inr count2 \<Rightarrow> helper_e2_loop game rest count2)"

definition helper_e2 :: "Game \<Rightarrow> Player \<Rightarrow> error + int" where
  "helper_e2 game p =
     (case player_units game p of (us, stop) \<Rightarrow>
        (case helper_e2_loop game us 0 of
           Inl err \<Rightarrow> Inl err
         | Inr count \<Rightarrow> exhaust stop count))"

definition e2 :: "Game \<Rightarrow> error + int" where
  "e2 game =
     (case helper_e2 game Attacker of
        Inl err \<Rightarrow> Inl err
      | Inr count_attacker \<Rightarrow>
         (case helper_e2 game Defender of
            Inl err \<Rightarrow> Inl err
          | Inr count_defender \<Rightarrow> Inr (count_attacker - count_defender)))"

definition e :: "Game \<Rightarrow> error + int" where
  "e game =
     (if heuristic (options game) = 0 then e0 game
      else if heuristic (options game) = 1 then e1 game
      else if heuristic (options game) = 2 then e2 game
      else e0 game)"

subsection \<open>Successor generation\<close>

text \<open>One candidate of \<open>get_children\<close>: the move is applied to a clone of the game; a
  successful application advances the clone's turn.\<close>

definition try_candidate :: "Game \<Rightarrow> CoordPair \<Rightarrow> error + Game option" where
  "try_candidate g move =
     (case perform_move g move of
        Inl err \<Rightarrow> Inl err
      | Inr (success, _, nodeClone) \<Rightarrow> if success then Inr (Some (next_turn nodeClone)) else Inr None)"

text \<open>\<open>get_children\<close> yields a copy of its \<open>move\<close> object for a move to a neighbour, and the
  object itself for the self-move; it goes on assigning to that object afterwards. A yielded
  move is therefore tagged: \<open>Copy\<close> of a coordinate pair, or \<open>Shared\<close>, the generator's own
  object, whose content is whatever the generator wrote last.\<close>

datatype MoveRef = Copy CoordPair | Shared

fun children_adjacent :: "Game \<Rightarrow> Coord \<Rightarrow> Coord list \<Rightarrow> (Game \<times> CoordPair \<times> MoveRef) gen" where
  "children_adjacent g s [] = ([], None)"
| "children_adjacent g s (d # ds) =
     (case try_candidate g \<lparr>src = s, dst = d\<rparr> of
        Inl err \<Rightarrow> ([], Some err)
      | Inr None \<Rightarrow> children_adjacent g s ds
      | Inr (Some child) \<Rightarrow>
         (case children_adjacent g s ds of
            (xs, stop) \<Rightarrow> ((child, \<lparr>src = s, dst = d\<rparr>, Copy \<lparr>src = s, dst = d\<rparr>) # xs, stop)))"

fun children_units :: "Game \<Rightarrow> (Coord \<times> Unit) list \<Rightarrow> error option \<Rightarrow> (Game \<times> CoordPair \<times> MoveRef) gen" where
  "children_units g [] stop = ([], stop)"
| "children_units g ((s, _) # rest) stop =
     (case children_adjacent g s (iter_adjacent s) of
        (xs, Some err) \<Rightarrow> (xs, Some err)
      | (xs, None) \<Rightarrow>
         (case try_candidate g \<lparr>src = s, dst = s\<rparr> of
            Inl err \<Rightarrow> (xs, Some err)
          | Inr None \<Rightarrow>
             (case children_units g rest stop of (ys, stop') \<Rightarrow> (xs @ ys, stop'))
          | Inr (Some child) \<Rightarrow>
             (case children_units g rest stop of
                (ys, stop') \<Rightarrow> (xs @ (child, \<lparr>src = s, dst = s\<rparr>, Shared) # ys, stop'))))"

text \<open>Each yielded item is (child, content of the generator's move object at the yield,
  reference yielded).\<close>

definition get_children :: "Game \<Rightarrow> (Game \<times> CoordPair \<times> MoveRef) gen" where
  "get_children g =
     (case player_units g (next_player g) of (us, stop) \<Rightarrow> children_units g us stop)"

text \<open>The content of the generator's move object once the generator is exhausted:
  \<open>CoordPair()\<close> if no unit was visited, the self-move of the last unit otherwise.\<close>

definition final_move :: "Game \<Rightarrow> CoordPair" where
  "final_move g =
     (case fst (player_units g (next_player g)) of
        [] \<Rightarrow> \<lparr>src = \<lparr>row = 0, col = 0\<rparr>, dst = \<lparr>row = 0, col = 0\<rparr>\<rparr>
      | us \<Rightarrow> \<lparr>src = fst (last us), dst = fst (last us)\<rparr>)"

text \<open>What a stored move reference denotes when the search returns it.\<close>

fun deref :: "MoveRef option \<Rightarrow> CoordPair \<Rightarrow> CoordPair option" where
  "deref None current = None"
| "deref (Some (Copy m)) current = Some m"
| "deref (Some Shared) current = Some current"

subsection \<open>Construction of a game\<close>

definition default_Stats :: Stats where
  "default_Stats =
     \<lparr>evaluations_per_depth = [], average_branching_factor = 0, average_branching_size = 0\<rparr>"

definition default_Options :: Options where
  "default_Options =
     \<lparr>dim = 5, max_depth = Some 4, max_turns = Some 100, opt_alpha_beta = True, heuristic = 0\<rparr>"

definition initial_units :: "int \<Rightarrow> (Coord \<times> Unit) list" where
  "initial_units md =
     [(\<lparr>row = 0, col = 0\<rparr>, \<lparr>player = Defender, type = AI, health = 9\<rparr>),
      (\<lparr>row = 1, col = 0\<rparr>, \<lparr>player = Defender, type = Tech, health = 9\<rparr>),
      (\<lparr>row = 0, col = 1\<rparr>, \<lparr>player = Defender, type = Tech, health = 9\<rparr>),
      (\<lparr>row = 2, col = 0\<rparr>, \<lparr>player = Defender, type = Firewall, health = 9\<rparr>),
      (\<lparr>row = 0, col = 2\<rparr>, \<lparr>player = Defender, type = Firewall, health = 9\<rparr>),
      (\<lparr>row = 1, col = 1\<rparr>, \<lparr>player = Defender, type = Program, health = 9\<rparr>),
      (\<lparr>row = md, col = md\<rparr>, \<lparr>player = Attacker, type = AI, health = 9\<rparr>),
      (\<lparr>row = md - 1, col = md\<rparr>, \<lparr>player = Attacker, type = Virus, health = 9\<rparr>),
      (\<lparr>row = md, col = md - 1\<rparr>, \<lparr>player = Attacker, type = Virus, health = 9\<rparr>),
      (\<lparr>row = md - 2, col = md\<rparr>, \<lparr>player = Attacker, type = Program, health = 9\<rparr>),
      (\<lparr>row = md, col = md - 2\<rparr>, \<lparr>player = Attacker, type = Program, health = 9\<rparr>),
      (\<lparr>row = md - 1, col = md - 1\<rparr>, \<lparr>player = Attacker, type = Firewall, health = 9\<rparr>)]"

fun set_all :: "Game \<Rightarrow> (Coord \<times> Unit) list \<Rightarrow> error + Game" where
  "set_all g [] = Inr g"
| "set_all g ((c, u) # rest) =
     (case set_cell g c (Some u) of Inl err \<Rightarrow> Inl err | Inr g' \<Rightarrow> set_all g' rest)"

definition post_init :: "Game \<Rightarrow> error + Game" where
  "post_init g =
     (let d = dim (options g);
          g0 = g\<lparr>board := replicate (nat d) (replicate (nat d) None)\<rparr>
      in set_all g0 (initial_units (d - 1)))"

text \<open>\<open>Game(next_player=p, options=opts)\<close>: the dataclass defaults for the other fields,
  then \<open>__post_init__\<close>.\<close>

definition Game_init :: "Player \<Rightarrow> Options \<Rightarrow> error + Game" where
  "Game_init p opts =
     post_init \<lparr>board = [], next_player = p, turns_played = 0, options = opts,
                stats = default_Stats, attacker_has_ai = True, defender_has_ai = True,
                is_time_out = False, current_depth = 0, clock_reads = 0\<rparr>"

subsection \<open>Search statistics\<close>

definition update_average_branching :: "Game \<Rightarrow> nat \<Rightarrow> Game" where
  "update_average_branching self branch_factor =
     self\<lparr>stats := (stats self)
       \<lparr>average_branching_factor :=
           (average_branching_factor (stats self) * of_nat (average_branching_size (stats self))
              + of_nat branch_factor)
           / (of_nat (average_branching_size (stats self)) + 1),
        average_branching_size := average_branching_size (stats self) + 1\<rparr>\<rparr>"

definition update_evaluations_per_depth :: "Game \<Rightarrow> Game" where
  "update_evaluations_per_depth self =
     (let d = current_depth self;
          m = evaluations_per_depth (stats self);
          m0 = (if map_of m d = None then AList.update d 0 m else m)
      in self\<lparr>stats := (stats self)
           \<lparr>evaluations_per_depth := AList.update d (the (map_of m0 d) + 1) m0\<rparr>\<rparr>)"

subsection \<open>Minimax and alpha-beta search\<close>

text \<open>A search call returns the pair (score, move) and the updated \<open>self\<close>, whose statistics,
  time-out flag and clock it changes. The searched \<open>node\<close> is only read. The remaining depth
  is a natural number: the drivers start from a depth in \<open>range(1, max_depth + 1)\<close> and a call
  recurses with \<open>depth - 1\<close> only when \<open>depth\<close> is not 0.\<close>

type_synonym search_result = "error + ((int \<times> CoordPair option) \<times> Game)"

text \<open>The time check at the entry of every search call reads the clock once.\<close>

definition time_is_up :: "(nat \<Rightarrow> bool) \<Rightarrow> Game \<Rightarrow> bool" where
  "time_is_up tm self = tm (clock_reads self)"

definition clock_tick :: "Game \<Rightarrow> Game" where
  "clock_tick self = self\<lparr>clock_reads := clock_reads self + 1\<rparr>"

definition interrupt :: "Game \<Rightarrow> search_result" where
  "interrupt self = Inr ((0, None), (clock_tick self)\<lparr>is_time_out := True\<rparr>)"

definition evaluate_leaf :: "Game \<Rightarrow> Game \<Rightarrow> search_result" where
  "evaluate_leaf self node =
     (let self' = update_evaluations_per_depth self
      in case e node of Inl err \<Rightarrow> Inl err | Inr v \<Rightarrow> Inr ((v, None), self'))"

text \<open>The successor loops take the recursive call as the parameter \<open>rec\<close>. \<open>current\<close> is the
  content of the generator's move object once the generator is exhausted.\<close>

fun ab_max_loop ::
  "(Game \<Rightarrow> Game \<Rightarrow> int \<Rightarrow> int \<Rightarrow> search_result) \<Rightarrow> (Game \<times> CoordPair \<times> MoveRef) list \<Rightarrow>
   error option \<Rightarrow> CoordPair \<Rightarrow> int \<Rightarrow> int \<Rightarrow> int \<times> MoveRef option \<Rightarrow> nat \<Rightarrow> Game \<Rightarrow> search_result" where
  "ab_max_loop rec [] stop current alpha beta value_bestmove branch_factor self =
     (case stop of
        Some err \<Rightarrow> Inl err
      | None \<Rightarrow>
          Inr ((fst value_bestmove, deref (snd value_bestmove) current),
               update_average_branching self branch_factor))"
| "ab_max_loop rec ((child, content, move) # rest) stop current alpha beta value_bestmove branch_factor self =
     (case rec self child alpha beta of
        Inl err \<Rightarrow> Inl err
      | Inr ((alpha_beta_result, m), self') \<Rightarrow>
         (if is_time_out self' then Inr ((alpha_beta_result, m), self')
          else
           (let value_bestmove' =
                  (if alpha_beta_result > fst value_bestmove then (alpha_beta_result, Some move)
                   else value_bestmove);
                alpha' = (if fst value_bestmove' > alpha then fst value_bestmove' else alpha)
            in if beta \<le> alpha' then
                 Inr ((fst value_bestmove', deref (snd value_bestmove') content),
                      update_average_branching self' (branch_factor + 1))
               else ab_max_loop rec rest stop current alpha' beta value_bestmove'
                      (branch_factor + 1) self')))"

text \<open>In the minimizing branch of \<open>alpha_beta\<close> the local \<open>branch_factor\<close> is assigned only
  inside the loop body (\<open>branch_factor=0\<close> at every iteration); \<open>None\<close> is the unbound local.\<close>

fun ab_min_loop ::
  "(Game \<Rightarrow> Game \<Rightarrow> int \<Rightarrow> int \<Rightarrow> search_result) \<Rightarrow> (Game \<times> CoordPair \<times> MoveRef) list \<Rightarrow>
   error option \<Rightarrow> CoordPair \<Rightarrow> int \<Rightarrow> int \<Rightarrow> int \<times> MoveRef option \<Rightarrow> nat option \<Rightarrow> Game \<Rightarrow> search_result" where
  "ab_min_loop rec [] stop current alpha beta value_bestmove branch_factor self =
     (case stop of
        Some err \<Rightarrow> Inl err
      | None \<Rightarrow>
         (case branch_factor of
            None \<Rightarrow> Inl UnboundLocalError
          | Some b \<Rightarrow>
              Inr ((fst value_bestmove, deref (snd value_bestmove) current),
                   update_average_branching self b)))"
| "ab_min_loop rec ((child, content, move) # rest) stop current alpha beta value_bestmove branch_factor self =
     (case rec self child alpha beta of
        Inl err \<Rightarrow> Inl err
      | Inr ((alpha_beta_result, m), self') \<Rightarrow>
         (if is_time_out self' then Inr ((alpha_beta_result, m), self')
          else
           (let value_bestmove' =
                  (if alpha_beta_result < fst value_bestmove then (alpha_beta_result, Some move)
                   else value_bestmove);
                beta' = (if fst value_bestmove' < beta then fst value_bestmove' else beta)
            in if beta' \<le> alpha then
                 Inr ((fst value_bestmove', deref (snd value_bestmove') content),
                      update_average_branching self' 0)
               else ab_min_loop rec rest stop current alpha beta' value_bestmove' (Some 0) self')))"

fun alpha_beta ::
  "(nat \<Rightarrow> bool) \<Rightarrow> Game \<Rightarrow> Game \<Rightarrow> nat \<Rightarrow> int \<Rightarrow> int \<Rightarrow> bool \<Rightarrow> search_result" where
  "alpha_beta tm self node 0 alpha beta maximizingPlayer =
     (if time_is_up tm self then interrupt self
      else evaluate_leaf (clock_tick self) node)"
| "alpha_beta tm self node (Suc d) alpha beta maximizingPlayer =
     (if time_is_up tm self then interrupt self
      else if is_finished node then evaluate_leaf (clock_tick self) node
      else
       (case get_children node of
          (children, stop) \<Rightarrow>
            if maximizingPlayer then
              ab_max_loop (\<lambda>s child a b. alpha_beta tm s child d a b False) children stop
                (final_move node) alpha beta (MIN_HEURISTIC_SCORE, None) 0 (clock_tick self)
            else
              ab_min_loop (\<lambda>s child a b. alpha_beta tm s child d a b True) children stop
                (final_move node) alpha beta (MAX_HEURISTIC_SCORE, None) None (clock_tick self)))"

fun mm_max_loop ::
  "(Game \<Rightarrow> Game \<Rightarrow> search_result) \<Rightarrow> (Game \<times> CoordPair \<times> MoveRef) list \<Rightarrow>
   error option \<Rightarrow> CoordPair \<Rightarrow> int \<Rightarrow> MoveRef option \<Rightarrow> nat \<Rightarrow> Game \<Rightarrow> search_result" where
  "mm_max_loop rec [] stop current max_eval best_move branch_factor self =
     (case stop of
        Some err \<Rightarrow> Inl err
      | None \<Rightarrow>
          Inr ((max_eval, deref best_move current), update_average_branching self branch_factor))"
| "mm_max_loop rec ((child, content, move) # rest) stop current max_eval best_move branch_factor self =
     (case rec self child of
        Inl err \<Rightarrow> Inl err
      | Inr ((eval, m), self') \<Rightarrow>
         (if is_time_out self' then Inr ((eval, m), self')
          else if eval > max_eval then
            mm_max_loop rec rest stop current eval (Some move) (branch_factor + 1) self'
          else mm_max_loop rec rest stop current max_eval best_move (branch_factor + 1) self'))"

fun mm_min_loop ::
  "(Game \<Rightarrow> Game \<Rightarrow> search_result) \<Rightarrow> (Game \<times> CoordPair \<times> MoveRef) list \<Rightarrow>
   error option \<Rightarrow> CoordPair \<Rightarrow> int \<Rightarrow> MoveRef option \<Rightarrow> nat \<Rightarrow> Game \<Rightarrow> search_result" where
  "mm_min_loop rec [] stop current min_eval best_move branch_factor self =
     (case stop of
        Some err \<Rightarrow> Inl err
      | None \<Rightarrow>
          Inr ((min_eval, deref best_move current), update_average_branching self branch_factor))"
| "mm_min_loop rec ((child, content, move) # rest) stop current min_eval best_move branch_factor self =
     (case rec self child of
        Inl err \<Rightarrow> Inl err
      | Inr ((eval, m), self') \<Rightarrow>
         (if is_time_out self' then Inr ((eval, m), self')
          else if eval < min_eval then
            mm_min_loop rec rest stop current eval (Some move) (branch_factor + 1) self'
          else mm_min_loop rec rest stop current min_eval best_move (branch_factor + 1) self'))"

fun minimax :: "(nat \<Rightarrow> bool) \<Rightarrow> Game \<Rightarrow> Game \<Rightarrow> nat \<Rightarrow> bool \<Rightarrow> search_result" where
  "minimax tm self game 0 maximizing_player =
     (if time_is_up tm self then interrupt self
      else evaluate_leaf (clock_tick self) game)"
| "minimax tm self game (Suc d) maximizing_player =
     (if time_is_up tm self then interrupt self
      else if is_finished game then evaluate_leaf (clock_tick self) game
      else
       (case get_children game of
          (children, stop) \<Rightarrow>
            if maximizing_player then
              mm_max_loop (\<lambda>s child. minimax tm s child d False) children stop
                (final_move game) MIN_HEURISTIC_SCORE None 0 (clock_tick self)
            else
              mm_min_loop (\<lambda>s child. minimax tm s child d True) children stop
                (final_move game) MAX_HEURISTIC_SCORE None 0 (clock_tick self)))"

subsection \<open>Iterative deepening\<close>

text \<open>The loop \<open>for depth in range(1, max_depth+1)\<close> of \<open>alpha_beta_move\<close> and of
  \<open>minimax_move\<close>, which differ only in the search they call. \<open>best\<close> is the pair of locals
  (best_score, best_move); \<open>None\<close> means they are not yet assigned.\<close>

fun deepen ::
  "(Game \<Rightarrow> int \<Rightarrow> search_result) \<Rightarrow> int list \<Rightarrow> (int \<times> CoordPair option) option \<Rightarrow> Game \<Rightarrow> search_result" where
  "deepen search [] best self =
     (case best of None \<Rightarrow> Inl UnboundLocalError | Some b \<Rightarrow> Inr (b, self))"
| "deepen search (depth # depths) best self =
     (case search (self\<lparr>current_depth := depth\<rparr>) depth of
        Inl err \<Rightarrow> Inl err
      | Inr (score_move, self') \<Rightarrow>
         (if is_time_out self' then
            (case best of
               None \<Rightarrow> Inl UnboundLocalError
             | Some b \<Rightarrow> Inr (b, self'\<lparr>is_time_out := False\<rparr>))
          else deepen search depths (Some score_move) self'))"

definition alpha_beta_move :: "(nat \<Rightarrow> bool) \<Rightarrow> Game \<Rightarrow> search_result" where
  "alpha_beta_move tm self =
     (case max_depth (options self) of
        None \<Rightarrow> Inl TypeError
      | Some md \<Rightarrow>
          deepen (\<lambda>s depth. alpha_beta tm s s (nat depth) MIN_HEURISTIC_SCORE MAX_HEURISTIC_SCORE
                              (next_player self = Attacker))
                 (py_range 1 (md + 1)) None self)"

definition minimax_move :: "(nat \<Rightarrow> bool) \<Rightarrow> Game \<Rightarrow> search_result" where
  "minimax_move tm self =
     (case max_depth (options self) of
        None \<Rightarrow> Inl TypeError
      | Some md \<Rightarrow>
          deepen (\<lambda>s depth. minimax tm s s (nat depth) (next_player self = Attacker))
                 (py_range 1 (md + 1)) None self)"

text \<open>\<open>suggest_move\<close> records the start time (the clock count restarts), runs the configured
  driver and returns its move; the printing of the statistics is not modelled.\<close>

definition suggest_move :: "(nat \<Rightarrow> bool) \<Rightarrow> Game \<Rightarrow> error + (CoordPair option \<times> Game)" where
  "suggest_move tm self =
     (case (if opt_alpha_beta (options self) then alpha_beta_move tm (self\<lparr>clock_reads := 0\<rparr>)
            else minimax_move tm (self\<lparr>clock_reads := 0\<rparr>)) of
        Inl err \<Rightarrow> Inl err
      | Inr ((score, move), self') \<Rightarrow> Inr (move, self'))"

subsection \<open>Well-formed boards and the starting position\<close>

text \<open>The board of a game is a \<open>dim\<close> x \<open>dim\<close> grid: \<open>__post_init__\<close> builds it so and no
  method changes its shape.\<close>

definition wf_board :: "Game \<Rightarrow> bool" where
  "wf_board g =
     (length (board g) = nat (dim (options g))
      \<and> (\<forall>r \<in> set (board g). length r = nat (dim (options g))))"

text \<open>The content of a cell as a total function of the grid, for reasoning about \<open>get\<close>.\<close>

definition cell_at :: "Game \<Rightarrow> Coord \<Rightarrow> Unit option" where
  "cell_at g c = (if is_valid_coord g c then board g ! nat (row c) ! nat (col c) else None)"

text \<open>The board that \<open>__post_init__\<close> builds for the default dimension 5.\<close>

definition start_board :: "Unit option list list" where
  "start_board =
    [[Some \<lparr>player = Defender, type = AI, health = 9\<rparr>,
      Some \<lparr>player = Defender, type = Tech, health = 9\<rparr>,
      Some \<lparr>player = Defender, type = Firewall, health = 9\<rparr>, None, None],
     [Some \<lparr>player = Defender, type = Tech, health = 9\<rparr>,
      Some \<lparr>player = Defender, type = Program, health = 9\<rparr>, None, None, None],
     [Some \<lparr>player = Defender, type = Firewall, health = 9\<rparr>, None, None, None,
      Some \<lparr>player = Attacker, type = Program, health = 9\<rparr>],
     [None, None, None,
      Some \<lparr>player = Attacker, type = Firewall, health = 9\<rparr>,
      Some \<lparr>player = Attacker, type = Virus, health = 9\<rparr>],
     [None, None,
      Some \<lparr>player = Attacker, type = Program, health = 9\<rparr>,
      Some \<lparr>player = Attacker, type = Virus, health = 9\<rparr>,
      Some \<lparr>player = Attacker, type = AI, health = 9\<rparr>]]"

definition start_game :: "Player \<Rightarrow> Game" where
  "start_game p =
     \<lparr>board = start_board, next_player = p, turns_played = 0, options = default_Options,
      stats = default_Stats, attacker_has_ai = True, defender_has_ai = True,
      is_time_out = False, current_depth = 0, clock_reads = 0\<rparr>"

subsection \<open>The manual game loop\<close>


subsection \<open>The scoring rule of e2 in the words of its specification\<close>

text \<open>The specification of \<open>e2\<close> decides whether a neighbour is an enemy or a friend of the
  scored unit by the owners of the two units. These definitions follow that wording; they
  differ from \<open>helper_e2_adj\<close>, \<open>helper_e2_loop\<close>, \<open>helper_e2\<close> and \<open>e2\<close> only in comparing the
  neighbour's player with the unit's player.\<close>

fun helper_e2_adj_by_owner :: "Game \<Rightarrow> Unit \<Rightarrow> Coord list \<Rightarrow> int \<Rightarrow> error + int" where
  "helper_e2_adj_by_owner game unit [] count = Inr count"
| "helper_e2_adj_by_owner game unit (coord_adj # rest) count =
     (case get game coord_adj of
        Inl err \<Rightarrow> Inl err
      | Inr None \<Rightarrow> helper_e2_adj_by_owner game unit rest count
      | Inr (Some unit_adj) \<Rightarrow>
         (if player unit_adj \<noteq> player unit then
            (if damage_amount unit_adj unit \<ge> health unit then
               helper_e2_adj_by_owner game unit rest
                 (if type unit \<in> {Firewall, Program} then count - 2 * health unit
                  else if type unit \<in> {Virus, Tech} then count - 5 * health unit
                  else if type unit = AI then count - 9999 * health unit
                  else count)
             else helper_e2_adj_by_owner game unit rest count)
          else
            (let count1 = (if type unit = AI then count + 999 else count);
                 repair = repair_amount unit_adj unit
             in if repair > 0 \<and> health unit < 9 then
                  helper_e2_adj_by_owner game unit rest
                    (if type unit \<in> {Firewall, Program} then count1 + 2 * repair
                     else if type unit \<in> {Virus, Tech} then count1 + 5 * repair
                     else if type unit = AI then count1 + 9999 * repair
                     else count1)
                else helper_e2_adj_by_owner game unit rest count1)))"

fun helper_e2_loop_by_owner :: "Game \<Rightarrow> (Coord \<times> Unit) list \<Rightarrow> int \<Rightarrow> error + int" where
  "helper_e2_loop_by_owner game [] count = Inr count"
| "helper_e2_loop_by_owner game ((coord, unit) # rest) count =
     (let count1 =
        (if type unit \<in> {Firewall, Program} then count + 3 * health unit
         else if type unit \<in> {Virus, Tech} then count + 9 * health unit
         else if type unit = AI then count + 99999 * health unit
         else count)
      in case helper_e2_adj_by_owner game unit (iter_range coord 1) count1 of
           Inl err \<Rightarrow> Inl err
         | Inr count2 \<Rightarrow> helper_e2_loop_by_owner game rest count2)"

definition helper_e2_by_owner :: "Game \<Rightarrow> Player \<Rightarrow> error + int" where
  "helper_e2_by_owner game p =
     (case player_units game p of (us, stop) \<Rightarrow>
        (case helper_e2_loop_by_owner game us 0 of
           Inl err \<Rightarrow> Inl err
         | Inr count \<Rightarrow> exhaust stop count))"

definition e2_by_owner :: "Game \<Rightarrow> error + int" where
  "e2_by_owner game =
     (case helper_e2_by_owner game Attacker of
        Inl err \<Rightarrow> Inl err
      | Inr count_attacker \<Rightarrow>
         (case helper_e2_by_owner game Defender of
            Inl err \<Rightarrow> Inl err
          | Inr count_defender \<Rightarrow> Inr (count_attacker - count_defender)))"

subsection \<open>Completed depth iterations\<close>

text \<open>The wording of the iterative-deepening property: the depth iterations 1 to \<open>k\<close> of a
  driver with search \<open>search\<close> ran to completion, iteration \<open>d\<close> starting in state \<open>S (d - 1)\<close>
  and returning the pair \<open>R d\<close> in state \<open>S d\<close> with the time-out flag clear, and \<open>k\<close> is the
  deepest such iteration: either \<open>k\<close> is \<open>max_depth\<close> or iteration \<open>k + 1\<close> returned with the
  time-out flag raised.\<close>

definition completed_depths ::
  "(Game \<Rightarrow> int \<Rightarrow> search_result) \<Rightarrow> Game \<Rightarrow> int \<Rightarrow> nat \<Rightarrow>
   (nat \<Rightarrow> int \<times> CoordPair option) \<Rightarrow> (nat \<Rightarrow> Game) \<Rightarrow> bool" where
  "completed_depths search self md k R S =
     (1 \<le> k \<and> int k \<le> md \<and> S 0 = self
      \<and> (\<forall>d \<in> {1..k}. search ((S (d - 1))\<lparr>current_depth := int d\<rparr>) (int d) = Inr (R d, S d)
                         \<and> \<not> is_time_out (S d))
      \<and> (int k = md
           \<or> (case search ((S k)\<lparr>current_depth := int k + 1\<rparr>) (int k + 1) of
                 Inl err \<Rightarrow> False
               | Inr (r, s') \<Rightarrow> is_time_out s')))"

subsection \<open>Well-formed games\<close>

text \<open>The invariants of a game state: the board is the \<open>dim\<close> x \<open>dim\<close> grid, every unit on it
  has a health in [0,9], and a side whose has-AI flag is set has an AI on the board. The
  bound on the dimension keeps every heuristic inside the window of the search.\<close>

definition wf_game :: "Game \<Rightarrow> bool" where
  "wf_game g =
     (wf_board g \<and> dim (options g) \<le> 41
      \<and> (\<forall>x \<in> set (concat (board g)).
            case x of None \<Rightarrow> True | Some u \<Rightarrow> 0 \<le> health u \<and> health u \<le> 9)
      \<and> (attacker_has_ai g \<longrightarrow>
            (\<exists>x \<in> set (concat (board g)).
               case x of None \<Rightarrow> False | Some u \<Rightarrow> player u = Attacker \<and> type u = AI))
      \<and> (defender_has_ai g \<longrightarrow>
            (\<exists>x \<in> set (concat (board g)).
               case x of None \<Rightarrow> False | Some u \<Rightarrow> player u = Defender \<and> type u = AI)))"

text \<open>Coordinate pairs whose text form exists: \<open>row_string\<close> and \<open>col_string\<close> index their
  alphabets with any row below 26 and any column below 16.\<close>

definition printable :: "CoordPair \<Rightarrow> bool" where
  "printable mv = (- 26 \<le> row (src mv) \<and> - 16 \<le> col (src mv)
                   \<and> - 26 \<le> row (dst mv) \<and> - 16 \<le> col (dst mv))"

subsection \<open>The value of a bounded-depth game tree\<close>

text \<open>Auxiliary notions for comparing the two searches. \<open>leaf_value\<close> is the heuristic score
  of a node whose evaluation does not raise. \<open>minimax_value\<close> is the score that the plain
  minimax recursion computes when no call raises and no time-out occurs: the running maximum
  starts from \<open>MIN_HEURISTIC_SCORE\<close>, the running minimum from \<open>MAX_HEURISTIC_SCORE\<close>.
  \<open>bounded_to a b v\<close> cuts a score off at the bounds of a window.\<close>

definition leaf_value :: "Game \<Rightarrow> int" where
  "leaf_value node = (case e node of Inl err \<Rightarrow> 0 | Inr v \<Rightarrow> v)"

fun minimax_value :: "nat \<Rightarrow> Game \<Rightarrow> bool \<Rightarrow> int" where
  "minimax_value 0 node maximizing = leaf_value node"
| "minimax_value (Suc d) node maximizing =
     (if is_finished node then leaf_value node
      else if maximizing then
        fold (\<lambda>child best. max best (minimax_value d child False))
             (map fst (fst (get_children node))) MIN_HEURISTIC_SCORE
      else
        fold (\<lambda>child best. min best (minimax_value d child True))
             (map fst (fst (get_children node))) MAX_HEURISTIC_SCORE)"

definition bounded_to :: "int \<Rightarrow> int \<Rightarrow> int \<Rightarrow> int" where
  "bounded_to a b v = max a (min v b)"

subsection \<open>Two fixed inputs of the search\<close>

text \<open>The clock oracle of a search during which no time-out occurs.\<close>

definition no_time_out :: "nat \<Rightarrow> bool" where
  "no_time_out k = False"

text \<open>The game that \<open>Game(options=Options(dim=2))\<close> constructs: on a 2x2 board the Attacker's
  units, placed last, overwrite all of the Defender's, and both has-AI flags are set.\<close>

definition tiny_game :: Game where
  "tiny_game =
     \<lparr>board =
        [[Some \<lparr>player = Attacker, type = Firewall, health = 9\<rparr>,
          Some \<lparr>player = Attacker, type = Virus, health = 9\<rparr>],
         [Some \<lparr>player = Attacker, type = Virus, health = 9\<rparr>,
          Some \<lparr>player = Attacker, type = AI, health = 9\<rparr>]],
      next_player = Attacker, turns_played = 0, options = default_Options\<lparr>dim := 2\<rparr>,
      stats = default_Stats, attacker_has_ai = True, defender_has_ai = True,
      is_time_out = False, current_depth = 0, clock_reads = 0\<rparr>"

section \<open>Unit combat amounts\<close>

text \<open>Claim C6. For every actor and every target whose health lies in [0,9], \<open>damage_amount\<close>
  is the minimum of the damage table entry and the target's health, \<open>repair_amount\<close> is the
  minimum of the repair table entry and 9 minus the target's health; both are non-negative,
  the damage never takes the health below 0 and the repair never takes it above 9.\<close>

theorem damage_repair_amount_clamped:
  assumes "0 \<le> health target" and "health target \<le> 9"
  shows "damage_amount actor target
           = min (damage_table ! UnitType_value (type actor) ! UnitType_value (type target)) (health target)
       \<and> repair_amount actor target
           = min (repair_table ! UnitType_value (type actor) ! UnitType_value (type target)) (9 - health target)
       \<and> 0 \<le> damage_amount actor target
       \<and> 0 \<le> repair_amount actor target
       \<and> 0 \<le> health target - damage_amount actor target
       \<and> health target + repair_amount actor target \<le> 9"
proof -
  have d: "0 \<le> damage_table ! UnitType_value (type actor) ! UnitType_value (type target)"
    by (cases "type actor"; cases "type target") (simp_all add: damage_table_def)
  have r: "0 \<le> repair_table ! UnitType_value (type actor) ! UnitType_value (type target)"
    by (cases "type actor"; cases "type target") (simp_all add: repair_table_def)
  show ?thesis
    using assms d r by (simp add: damage_amount_def repair_amount_def Let_def min_def)
qed

theorem damage_repair_amount_clamped_witness:
  "damage_amount \<lparr>player = Attacker, type = Virus, health = 9\<rparr> \<lparr>player = Defender, type = AI, health = 4\<rparr> = 4
   \<and> repair_amount \<lparr>player = Defender, type = Tech, health = 9\<rparr> \<lparr>player = Defender, type = AI, health = 4\<rparr> = 3"
  using damage_repair_amount_clamped [of "\<lparr>player = Defender, type = AI, health = 4\<rparr>" "\<lparr>player = Attacker, type = Virus, health = 9\<rparr>"]
        damage_repair_amount_clamped [of "\<lparr>player = Defender, type = AI, health = 4\<rparr>" "\<lparr>player = Defender, type = Tech, health = 9\<rparr>"]
  by (simp add: damage_table_def repair_table_def)

section \<open>Win detection\<close>

text \<open>Claim C5. \<open>has_winner\<close> returns Defender whenever a turn limit is configured and
  \<open>turns_played\<close> has reached it, whatever the rest of the state; otherwise Defender when the
  Attacker's AI is dead, Attacker when the Attacker's AI is alive and the Defender's is dead,
  and no winner when both are alive.\<close>

theorem has_winner_rule:
  "has_winner g =
     (if (\<exists>n. max_turns (options g) = Some n \<and> n \<le> turns_played g) then Some Defender
      else if \<not> attacker_has_ai g then Some Defender
      else if \<not> defender_has_ai g then Some Attacker
      else None)"
  by (auto simp: has_winner_def)

theorem has_winner_rule_witness:
  "has_winner \<lparr>board = [], next_player = Attacker, turns_played = 100, options = default_Options,
       stats = default_Stats, attacker_has_ai = True, defender_has_ai = False,
       is_time_out = False, current_depth = 0, clock_reads = 0\<rparr> = Some Defender
   \<and> has_winner \<lparr>board = [], next_player = Attacker, turns_played = 99, options = default_Options,
       stats = default_Stats, attacker_has_ai = True, defender_has_ai = False,
       is_time_out = False, current_depth = 0, clock_reads = 0\<rparr> = Some Attacker"
  using has_winner_rule [of "\<lparr>board = [], next_player = Attacker, turns_played = 100, options = default_Options,
       stats = default_Stats, attacker_has_ai = True, defender_has_ai = False,
       is_time_out = False, current_depth = 0, clock_reads = 0\<rparr>"]
     has_winner_rule [of "\<lparr>board = [], next_player = Attacker, turns_played = 99, options = default_Options,
       stats = default_Stats, attacker_has_ai = True, defender_has_ai = False,
       is_time_out = False, current_depth = 0, clock_reads = 0\<rparr>"]
  by (simp add: default_Options_def)

section \<open>The starting position\<close>

lemma Game_init_default:
  "Game_init Attacker default_Options = Inr (start_game Attacker)"
  "Game_init Defender default_Options = Inr (start_game Defender)"
  by code_simp+

lemma wf_board_start_game: "wf_board (start_game p)"
  by (simp add: wf_board_def start_game_def start_board_def default_Options_def)

section \<open>Reading a well-formed board\<close>

lemma is_valid_coord_iff:
  "is_valid_coord g c \<longleftrightarrow> 0 \<le> row c \<and> row c < dim (options g) \<and> 0 \<le> col c \<and> col c < dim (options g)"
  by (auto simp: is_valid_coord_def)

lemma wf_board_row:
  assumes "wf_board g" "is_valid_coord g c"
  shows "nat (row c) < length (board g)" "length (board g ! nat (row c)) = nat (dim (options g))"
        "nat (col c) < length (board g ! nat (row c))"
proof -
  show 1: "nat (row c) < length (board g)"
    using assms by (auto simp: wf_board_def is_valid_coord_iff)
  then have "board g ! nat (row c) \<in> set (board g)" by simp
  then show 2: "length (board g ! nat (row c)) = nat (dim (options g))"
    using assms by (auto simp: wf_board_def)
  show "nat (col c) < length (board g ! nat (row c))"
    using assms 2 by (auto simp: is_valid_coord_iff)
qed

lemma get_wf: "wf_board g \<Longrightarrow> get g c = Inr (cell_at g c)"
proof (cases "is_valid_coord g c")
  case False
  then show ?thesis by (simp add: get_def cell_at_def)
next
  case True
  assume wf: "wf_board g"
  note r = wf_board_row [OF wf True]
  have v: "0 \<le> row c" "0 \<le> col c" using True by (auto simp: is_valid_coord_iff)
  have "py_index (board g) (row c) = Inr (board g ! nat (row c))"
    using r(1) v by (simp add: py_index_def)
  moreover have "py_index (board g ! nat (row c)) (col c) = Inr (board g ! nat (row c) ! nat (col c))"
    using r(3) v by (simp add: py_index_def)
  ultimately show ?thesis using True by (simp add: get_def cell_at_def)
qed

lemma engaged_wf:
  "wf_board g \<Longrightarrow>
   engaged g unit cs =
     Inr (type unit \<in> {AI, Firewall, Program}
          \<and> (\<exists>c \<in> set cs. \<exists>u. cell_at g c = Some u \<and> player u \<noteq> player unit))"
  by (induction cs) (auto simp: get_wf split: option.splits)

lemma mem_iter_adjacent:
  "d \<in> set (iter_adjacent s) \<longleftrightarrow>
     (col d = col s \<and> \<bar>row d - row s\<bar> = 1) \<or> (row d = row s \<and> \<bar>col d - col s\<bar> = 1)"
proof -
  have "d = \<lparr>row = row d, col = col d\<rparr>" by simp
  then show ?thesis
    unfolding iter_adjacent_def
    by (cases d) (auto simp: abs_if)
qed

lemma is_valid_move_wf:
  assumes "wf_board g"
  shows "is_valid_move g coords =
     Inr (is_valid_coord g (src coords) \<and> is_valid_coord g (dst coords)
        \<and> (\<exists>unit. cell_at g (src coords) = Some unit
             \<and> player unit = next_player g
             \<and> cell_at g (dst coords) = None
             \<and> \<not> (player unit = Attacker \<and> type unit \<in> {AI, Firewall, Program}
                   \<and> (row (dst coords) > row (src coords) \<or> col (dst coords) > col (src coords)))
             \<and> \<not> (player unit = Defender \<and> type unit \<in> {AI, Firewall, Program}
                   \<and> (row (dst coords) < row (src coords) \<or> col (dst coords) < col (src coords)))
             \<and> \<not> (type unit \<in> {AI, Firewall, Program}
                   \<and> (\<exists>c \<in> set (iter_adjacent (src coords)). \<exists>u. cell_at g c = Some u \<and> player u \<noteq> player unit))
             \<and> dst coords \<in> set (iter_adjacent (src coords))))"
proof -
  note [simp] = get_wf [OF assms] engaged_wf [OF assms]
  show ?thesis
  proof (cases "is_valid_coord g (src coords) \<and> is_valid_coord g (dst coords)")
    case False
    then show ?thesis by (auto simp: is_valid_move_def)
  next
    case True
    show ?thesis
    proof (cases "cell_at g (src coords)")
      case None
      then show ?thesis using True by (simp add: is_valid_move_def)
    next
      case (Some unit)
      show ?thesis
      proof (cases "player unit = next_player g")
        case False
        then show ?thesis using True Some by (simp add: is_valid_move_def)
      next
        case mine: True
        show ?thesis
        proof (cases "cell_at g (dst coords)")
          case (Some other)
          then show ?thesis using True \<open>cell_at g (src coords) = Some unit\<close> mine
            by (simp add: is_valid_move_def)
        next
          case None
          show ?thesis
            using True \<open>cell_at g (src coords) = Some unit\<close> mine None
            unfolding is_valid_move_def
            by (simp split: bool.splits) blast
        qed
      qed
    qed
  qed
qed

section \<open>Legality of a move\<close>

text \<open>Claim C4. On a game whose board is the \<open>dim\<close> x \<open>dim\<close> grid, \<open>is_valid_move\<close> never raises
  and returns true exactly when: source and destination lie within \<open>[0,dim)\<close> in both
  coordinates, the source holds a unit of the player to move, the destination is empty and is
  one of the four orthogonal neighbours of the source, and, when the unit is an AI, a Firewall
  or a Program, no orthogonal neighbour of the source holds a unit of the other player, an
  Attacker's unit does not increase its row or column and a Defender's unit does not decrease
  them. On every other input it returns false.\<close>

theorem is_valid_move_iff:
  assumes "wf_board g"
  shows "is_valid_move g coords =
     Inr ((0 \<le> row (src coords) \<and> row (src coords) < dim (options g)
           \<and> 0 \<le> col (src coords) \<and> col (src coords) < dim (options g))
        \<and> (0 \<le> row (dst coords) \<and> row (dst coords) < dim (options g)
           \<and> 0 \<le> col (dst coords) \<and> col (dst coords) < dim (options g))
        \<and> (\<exists>unit. get g (src coords) = Inr (Some unit)
             \<and> player unit = next_player g
             \<and> get g (dst coords) = Inr None
             \<and> ((col (dst coords) = col (src coords) \<and> \<bar>row (dst coords) - row (src coords)\<bar> = 1)
                \<or> (row (dst coords) = row (src coords) \<and> \<bar>col (dst coords) - col (src coords)\<bar> = 1))
             \<and> (type unit \<in> {AI, Firewall, Program} \<longrightarrow>
                   (\<forall>adj u. ((col adj = col (src coords) \<and> \<bar>row adj - row (src coords)\<bar> = 1)
                              \<or> (row adj = row (src coords) \<and> \<bar>col adj - col (src coords)\<bar> = 1))
                            \<longrightarrow> get g adj = Inr (Some u) \<longrightarrow> player u = player unit)
                 \<and> (player unit = Attacker \<longrightarrow>
                       row (dst coords) \<le> row (src coords) \<and> col (dst coords) \<le> col (src coords))
                 \<and> (player unit = Defender \<longrightarrow>
                       row (dst coords) \<ge> row (src coords) \<and> col (dst coords) \<ge> col (src coords)))))"
proof -
  let ?s = "src coords" and ?d = "dst coords"
  have lock: "(\<exists>c \<in> set (iter_adjacent ?s). \<exists>u. cell_at g c = Some u \<and> player u \<noteq> p)
      \<longleftrightarrow> \<not> (\<forall>adj u. ((col adj = col ?s \<and> \<bar>row adj - row ?s\<bar> = 1)
                              \<or> (row adj = row ?s \<and> \<bar>col adj - col ?s\<bar> = 1))
                            \<longrightarrow> get g adj = Inr (Some u) \<longrightarrow> player u = p)" for p
    unfolding Bex_def mem_iter_adjacent get_wf [OF assms] sum.inject by blast
  have dir: "(\<not> (player unit = Attacker \<and> T \<and> (row ?d > row ?s \<or> col ?d > col ?s))
              \<and> \<not> (player unit = Defender \<and> T \<and> (row ?d < row ?s \<or> col ?d < col ?s))
              \<and> \<not> (T \<and> \<not> N))
         \<longleftrightarrow> (T \<longrightarrow> N \<and> (player unit = Attacker \<longrightarrow> row ?d \<le> row ?s \<and> col ?d \<le> col ?s)
                    \<and> (player unit = Defender \<longrightarrow> row ?d \<ge> row ?s \<and> col ?d \<ge> col ?s))"
    for unit :: Unit and T N
    by (cases "player unit") (simp_all add: not_less, blast+)
  have body: "(cell_at g ?s = Some unit \<and> player unit = next_player g \<and> cell_at g ?d = None
             \<and> \<not> (player unit = Attacker \<and> type unit \<in> {AI, Firewall, Program}
                   \<and> (row ?d > row ?s \<or> col ?d > col ?s))
             \<and> \<not> (player unit = Defender \<and> type unit \<in> {AI, Firewall, Program}
                   \<and> (row ?d < row ?s \<or> col ?d < col ?s))
             \<and> \<not> (type unit \<in> {AI, Firewall, Program}
                   \<and> (\<exists>c \<in> set (iter_adjacent ?s). \<exists>u. cell_at g c = Some u \<and> player u \<noteq> player unit))
             \<and> ?d \<in> set (iter_adjacent ?s))
        \<longleftrightarrow> (get g ?s = Inr (Some unit) \<and> player unit = next_player g \<and> get g ?d = Inr None
             \<and> ((col ?d = col ?s \<and> \<bar>row ?d - row ?s\<bar> = 1)
                \<or> (row ?d = row ?s \<and> \<bar>col ?d - col ?s\<bar> = 1))
             \<and> (type unit \<in> {AI, Firewall, Program} \<longrightarrow>
                   (\<forall>adj u. ((col adj = col ?s \<and> \<bar>row adj - row ?s\<bar> = 1)
                              \<or> (row adj = row ?s \<and> \<bar>col adj - col ?s\<bar> = 1))
                            \<longrightarrow> get g adj = Inr (Some u) \<longrightarrow> player u = player unit)
                 \<and> (player unit = Attacker \<longrightarrow> row ?d \<le> row ?s \<and> col ?d \<le> col ?s)
                 \<and> (player unit = Defender \<longrightarrow> row ?d \<ge> row ?s \<and> col ?d \<ge> col ?s)))"
    for unit
    unfolding lock [of "player unit"] mem_iter_adjacent [of ?d ?s]
    using dir [of unit "type unit \<in> {AI, Firewall, Program}"
          "\<forall>adj u. ((col adj = col ?s \<and> \<bar>row adj - row ?s\<bar> = 1)
                              \<or> (row adj = row ?s \<and> \<bar>col adj - col ?s\<bar> = 1))
                            \<longrightarrow> get g adj = Inr (Some u) \<longrightarrow> player u = player unit"]
    by (simp only: get_wf [OF assms] sum.inject not_not) blast
  show ?thesis
    unfolding is_valid_move_wf [OF assms] is_valid_coord_iff body
    by (rule refl)
qed


theorem is_valid_move_iff_witness:
  "wf_board (start_game Attacker)
   \<and> (\<exists>unit. get (start_game Attacker) \<lparr>row = 4, col = 2\<rparr> = Inr (Some unit)
         \<and> player unit = Attacker
         \<and> get (start_game Attacker) \<lparr>row = 3, col = 2\<rparr> = Inr None)"
proof -
  have ev: "is_valid_move (start_game Attacker) \<lparr>src = \<lparr>row = 4, col = 2\<rparr>, dst = \<lparr>row = 3, col = 2\<rparr>\<rparr> = Inr True"
    by code_simp
  have np: "next_player (start_game Attacker) = Attacker"
    by (simp add: start_game_def)
  have "Inr True = is_valid_move (start_game Attacker) \<lparr>src = \<lparr>row = 4, col = 2\<rparr>, dst = \<lparr>row = 3, col = 2\<rparr>\<rparr>"
    using ev by simp
  also note is_valid_move_iff [OF wf_board_start_game, of Attacker "\<lparr>src = \<lparr>row = 4, col = 2\<rparr>, dst = \<lparr>row = 3, col = 2\<rparr>\<rparr>"]
  finally have "\<exists>unit. get (start_game Attacker) \<lparr>row = 4, col = 2\<rparr> = Inr (Some unit)
         \<and> player unit = next_player (start_game Attacker)
         \<and> get (start_game Attacker) \<lparr>row = 3, col = 2\<rparr> = Inr None"
    unfolding sum.inject CoordPair.simps by blast
  then show ?thesis
    unfolding np using wf_board_start_game [of Attacker] by blast
qed

section \<open>Applying an action\<close>

text \<open>Claim C3. \<open>perform_move\<close> is claimed to return (False, description) without raising
  whenever no interpretation of the coordinate pair applies. On the starting position, for
  the pair with source row -27, no interpretation applies and formatting the description
  fails: \<open>Coord.row_string\<close> indexes the alphabet with any row below 26, and a row below -26
  is outside the range of negative indices, so \<open>perform_move\<close> raises IndexError.\<close>

theorem perform_move_raises_on_far_negative_row:
  "perform_move (start_game Attacker) \<lparr>src = \<lparr>row = - 27, col = 0\<rparr>, dst = \<lparr>row = 0, col = 0\<rparr>\<rparr>
     = Inl IndexError"
  by code_simp

section \<open>The heuristic e2\<close>

text \<open>Claim C7. The danger penalty and the friendly bonuses of \<open>e2\<close> are claimed to depend on
  the owners of the unit and of its neighbour only, not on the player to move. On the
  starting position the value of \<open>e2\<close> is 3996 with the Attacker to move and -183978 with the
  Defender to move, while the rule worded on the owners gives 0 for both: \<open>helper_e2\<close>
  compares the neighbour's player with \<open>next_player\<close>, so the Defender's AI gets no bonus for
  its own neighbours when the Attacker is to move.\<close>

theorem e2_sides_by_player_to_move:
  "e2 (start_game Attacker) = Inr 3996
   \<and> e2 (start_game Defender) = Inr (- 183978)
   \<and> e2_by_owner (start_game Attacker) = Inr 0
   \<and> e2_by_owner (start_game Defender) = Inr 0
   \<and> helper_e2 (start_game Attacker) Defender = Inr 900234
   \<and> helper_e2_by_owner (start_game Attacker) Defender = Inr 904230"
  by code_simp

section \<open>Branching statistics\<close>

text \<open>Claim C8. The running average is claimed to be updated with the number of successors
  iterated, in the maximizing and the minimizing branch alike. In the minimizing branch of
  \<open>alpha_beta\<close> the counter is reset to 0 at every iteration: on the starting position with
  the Defender to move, at depth 1 with no time-out, all 12 successors are searched (13 clock
  readings) and the average recorded is 0 over one sample, where \<open>minimax\<close> records 12.\<close>

theorem alpha_beta_min_branch_counts_zero:
  "length (fst (get_children (start_game Defender))) = 12
   \<and> (case alpha_beta (\<lambda>k. False) (start_game Defender) (start_game Defender) 1
              MIN_HEURISTIC_SCORE MAX_HEURISTIC_SCORE False of
         Inl err \<Rightarrow> None
       | Inr (r, self') \<Rightarrow>
           Some (clock_reads self', average_branching_factor (stats self'),
                 average_branching_size (stats self'))) = Some (13, 0, 1)
   \<and> (case minimax (\<lambda>k. False) (start_game Defender) (start_game Defender) 1 False of
         Inl err \<Rightarrow> None
       | Inr (r, self') \<Rightarrow>
           Some (clock_reads self', average_branching_factor (stats self'),
                 average_branching_size (stats self'))) = Some (13, 12, 1)"
  by code_simp

section \<open>Whose unit acts\<close>





section \<open>Iterative deepening\<close>

lemma py_range_Cons: "lo < hi \<Longrightarrow> py_range lo hi = lo # py_range (lo + 1) hi"
  unfolding py_range_def by (subst upto_rec1) auto

text \<open>Claim C10. When the first clock reading of the search already is a time-out and there
  is at least one depth to search, \<open>alpha_beta_move\<close> and \<open>minimax_move\<close> return their locals
  \<open>best_score\<close> and \<open>best_move\<close> before any assignment to them: both raise
  UnboundLocalError, and so does \<open>suggest_move\<close>.\<close>

theorem timeout_at_first_check_unbound:
  assumes "tm 0" and "max_depth (options self) = Some md" and "1 \<le> md"
  shows "alpha_beta_move tm (self\<lparr>clock_reads := 0\<rparr>) = Inl UnboundLocalError
       \<and> minimax_move tm (self\<lparr>clock_reads := 0\<rparr>) = Inl UnboundLocalError
       \<and> suggest_move tm self = Inl UnboundLocalError"
proof -
  have r: "py_range 1 (md + 1) = 1 # py_range 2 (md + 1)"
    using assms(3) py_range_Cons [of 1 "md + 1"] by simp
  have ab: "alpha_beta_move tm (self\<lparr>clock_reads := 0\<rparr>) = Inl UnboundLocalError"
    using assms(1,2)
    by (simp add: alpha_beta_move_def r time_is_up_def interrupt_def clock_tick_def)
  have mm: "minimax_move tm (self\<lparr>clock_reads := 0\<rparr>) = Inl UnboundLocalError"
    using assms(1,2)
    by (simp add: minimax_move_def r time_is_up_def interrupt_def clock_tick_def)
  show ?thesis
    using ab mm by (simp add: suggest_move_def)
qed

theorem timeout_at_first_check_unbound_witness:
  "suggest_move (\<lambda>k. True) (start_game Attacker) = Inl UnboundLocalError"
  using timeout_at_first_check_unbound [of "\<lambda>k. True" "start_game Attacker" 4]
  by (simp add: start_game_def default_Options_def)

lemma deepen_completed:
  assumes "k \<le> length ds"
    and "\<forall>i<k. search ((S i)\<lparr>current_depth := ds ! i\<rparr>) (ds ! i) = Inr (R i, S (Suc i))
               \<and> \<not> is_time_out (S (Suc i))"
    and "k = length ds
         \<or> (case search ((S k)\<lparr>current_depth := ds ! k\<rparr>) (ds ! k) of
               Inl err \<Rightarrow> False | Inr (r, s') \<Rightarrow> is_time_out s')"
    and "k = 0 \<longrightarrow> best = Some b"
  shows "\<exists>s. deepen search ds best (S 0) = Inr (if k = 0 then b else R (k - 1), s)"
  using assms
proof (induction k arbitrary: ds S R best b)
  case 0
  show ?case
  proof (cases ds)
    case Nil
    then show ?thesis using 0 by auto
  next
    case (Cons d ds')
    then show ?thesis using 0 by (auto split: sum.splits)
  qed
next
  case (Suc k)
  then obtain d ds' where ds: "ds = d # ds'" by (cases ds) auto
  from Suc.prems(2) have step: "search ((S 0)\<lparr>current_depth := d\<rparr>) d = Inr (R 0, S (Suc 0))"
      "\<not> is_time_out (S (Suc 0))"
    by (auto simp: ds)
  have "\<exists>s. deepen search ds' (Some (R 0)) ((S \<circ> Suc) 0)
          = Inr (if k = 0 then R 0 else (R \<circ> Suc) (k - 1), s)"
  proof (rule Suc.IH)
    show "k \<le> length ds'" using Suc.prems(1) ds by simp
    show "\<forall>i<k. search (((S \<circ> Suc) i)\<lparr>current_depth := ds' ! i\<rparr>) (ds' ! i)
                  = Inr ((R \<circ> Suc) i, (S \<circ> Suc) (Suc i)) \<and> \<not> is_time_out ((S \<circ> Suc) (Suc i))"
      using Suc.prems(2) ds by auto
    show "k = length ds'
         \<or> (case search (((S \<circ> Suc) k)\<lparr>current_depth := ds' ! k\<rparr>) (ds' ! k) of
               Inl err \<Rightarrow> False | Inr (r, s') \<Rightarrow> is_time_out s')"
      using Suc.prems(3) ds by auto
    show "k = 0 \<longrightarrow> Some (R 0) = Some (R 0)" by simp
  qed
  then show ?case
    using step ds by (cases k) auto
qed

lemma nth_py_range: "i < nat (hi - lo) \<Longrightarrow> py_range lo hi ! i = lo + int i"
  unfolding py_range_def by (subst nth_upto) auto

lemma length_py_range: "length (py_range lo hi) = nat (hi - lo)"
  unfolding py_range_def by simp

lemma deepen_completed_depths:
  assumes "completed_depths search self md k R S"
  shows "\<exists>s. deepen search (py_range 1 (md + 1)) None self = Inr (R k, s)"
proof -
  from assms have k: "1 \<le> k" "int k \<le> md" and S0: "S 0 = self"
    and steps: "\<And>d. 1 \<le> d \<Longrightarrow> d \<le> k \<Longrightarrow>
        search ((S (d - 1))\<lparr>current_depth := int d\<rparr>) (int d) = Inr (R d, S d) \<and> \<not> is_time_out (S d)"
    and fin: "int k = md
           \<or> (case search ((S k)\<lparr>current_depth := int k + 1\<rparr>) (int k + 1) of
                 Inl err \<Rightarrow> False
               | Inr (r, s') \<Rightarrow> is_time_out s')"
    by (auto simp: completed_depths_def)
  let ?ds = "py_range 1 (md + 1)"
  have len: "length ?ds = nat md" by (simp add: length_py_range)
  have nth: "\<And>i. i < nat md \<Longrightarrow> ?ds ! i = 1 + int i"
    using nth_py_range [of _ "md + 1" 1] by simp
  have "\<exists>s. deepen search ?ds None (S 0)
          = Inr (if k = 0 then (0, None) else (R \<circ> Suc) (k - 1), s)"
  proof (rule deepen_completed)
    show "k \<le> length ?ds" using k len by simp
    show "\<forall>i<k. search ((S i)\<lparr>current_depth := ?ds ! i\<rparr>) (?ds ! i) = Inr ((R \<circ> Suc) i, S (Suc i))
               \<and> \<not> is_time_out (S (Suc i))"
    proof (intro allI impI)
      fix i assume "i < k"
      then have "?ds ! i = int (Suc i)" using nth [of i] k by simp
      then show "search ((S i)\<lparr>current_depth := ?ds ! i\<rparr>) (?ds ! i) = Inr ((R \<circ> Suc) i, S (Suc i))
               \<and> \<not> is_time_out (S (Suc i))"
        using steps [of "Suc i"] \<open>i < k\<close> by simp
    qed
    show "k = length ?ds
         \<or> (case search ((S k)\<lparr>current_depth := ?ds ! k\<rparr>) (?ds ! k) of
               Inl err \<Rightarrow> False | Inr (r, s') \<Rightarrow> is_time_out s')"
    proof (cases "int k = md")
      case True
      then have "k = nat md" by auto
      then show ?thesis using len by simp
    next
      case False
      then have "k < nat md" using k by simp
      then have "?ds ! k = int k + 1" using nth [of k] by simp
      then show ?thesis using fin False by simp
    qed
    show "k = 0 \<longrightarrow> None = Some (0, None)" using k by simp
  qed
  then show ?thesis using k S0 by (cases k) auto
qed

text \<open>Claim C2. Whenever the depth iterations 1 to \<open>k\<close> of a driver run to completion (each
  returns with the time-out flag clear) and \<open>k\<close> is the deepest of them, because \<open>k\<close> is
  \<open>max_depth\<close> or because iteration \<open>k + 1\<close> returns with the time-out flag raised,
  \<open>alpha_beta_move\<close> and \<open>minimax_move\<close> return the pair (score, action) that iteration \<open>k\<close>
  produced: the result of the timed-out iteration is discarded.\<close>

theorem iterative_deepening_deepest_completed:
  assumes "max_depth (options self) = Some md"
  shows "(completed_depths
            (\<lambda>s depth. alpha_beta tm s s (nat depth) MIN_HEURISTIC_SCORE MAX_HEURISTIC_SCORE
                          (next_player self = Attacker)) self md ka Ra Sa
          \<longrightarrow> (\<exists>s. alpha_beta_move tm self = Inr (Ra ka, s)))
       \<and> (completed_depths
            (\<lambda>s depth. minimax tm s s (nat depth) (next_player self = Attacker)) self md km Rm Sm
          \<longrightarrow> (\<exists>s. minimax_move tm self = Inr (Rm km, s)))"
  using assms deepen_completed_depths
  by (simp add: alpha_beta_move_def minimax_move_def)

theorem iterative_deepening_deepest_completed_witness:
  "(\<exists>s. alpha_beta_move (\<lambda>n. 13 \<le> n)
          ((start_game Attacker)\<lparr>options := default_Options\<lparr>max_depth := Some 2\<rparr>\<rparr>)
        = Inr ((0, Some \<lparr>src = \<lparr>row = 2, col = 4\<rparr>, dst = \<lparr>row = 1, col = 4\<rparr>\<rparr>), s))
   \<and> (\<exists>s. minimax_move (\<lambda>n. 13 \<le> n)
          ((start_game Attacker)\<lparr>options := default_Options\<lparr>max_depth := Some 2\<rparr>\<rparr>)
        = Inr ((0, Some \<lparr>src = \<lparr>row = 2, col = 4\<rparr>, dst = \<lparr>row = 1, col = 4\<rparr>\<rparr>), s))"
proof -
  let ?self = "(start_game Attacker)\<lparr>options := default_Options\<lparr>max_depth := Some 2\<rparr>\<rparr>"
  let ?S = "\<lambda>d::nat. if d = 0 then ?self
                    else ?self\<lparr>stats := \<lparr>evaluations_per_depth = [(1, 12)],
                                           average_branching_factor = 12,
                                           average_branching_size = 1\<rparr>,
                                current_depth := 1, clock_reads := 13\<rparr>"
  let ?R = "\<lambda>d::nat. (0::int, Some \<lparr>src = \<lparr>row = 2, col = 4\<rparr>, dst = \<lparr>row = 1, col = 4\<rparr>\<rparr>)"
  have md: "max_depth (options ?self) = Some 2"
    by simp
  have a: "completed_depths
            (\<lambda>s depth. alpha_beta (\<lambda>n. 13 \<le> n) s s (nat depth) MIN_HEURISTIC_SCORE MAX_HEURISTIC_SCORE
                          (next_player ?self = Attacker)) ?self 2 1 ?R ?S"
    by code_simp
  have m: "completed_depths
            (\<lambda>s depth. minimax (\<lambda>n. 13 \<le> n) s s (nat depth) (next_player ?self = Attacker))
            ?self 2 1 ?R ?S"
    by code_simp
  from iterative_deepening_deepest_completed [OF md, of "\<lambda>n. 13 \<le> n" 1 ?R ?S 1 ?R ?S] a m
  show ?thesis by blast
qed

section \<open>Alpha-beta search against plain minimax\<close>

subsection \<open>The two searches on nodes that satisfy an invariant\<close>

lemma is_time_out_updates [simp]:
  "is_time_out (clock_tick s) = is_time_out s"
  "is_time_out (update_evaluations_per_depth s) = is_time_out s"
  "is_time_out (update_average_branching s n) = is_time_out s"
  by (simp_all add: clock_tick_def update_evaluations_per_depth_def update_average_branching_def Let_def)

lemma fold_max_ge: "acc \<le> fold (\<lambda>c (a::int). max a (f c)) xs acc"
  by (induction xs arbitrary: acc) (auto intro: order_trans [OF max.cobounded1])

lemma fold_min_le: "fold (\<lambda>c (a::int). min a (f c)) xs acc \<le> acc"
  by (induction xs arbitrary: acc) (auto intro: order_trans [OF _ min.cobounded1])

lemma fold_max_bounds:
  "lo \<le> acc \<Longrightarrow> acc \<le> hi \<Longrightarrow> (\<And>c. c \<in> set xs \<Longrightarrow> lo \<le> f c \<and> f c \<le> hi)
   \<Longrightarrow> lo \<le> fold (\<lambda>c (a::int). max a (f c)) xs acc \<and> fold (\<lambda>c a. max a (f c)) xs acc \<le> hi"
  by (induction xs arbitrary: acc) auto

lemma fold_min_bounds:
  "lo \<le> acc \<Longrightarrow> acc \<le> hi \<Longrightarrow> (\<And>c. c \<in> set xs \<Longrightarrow> lo \<le> f c \<and> f c \<le> hi)
   \<Longrightarrow> lo \<le> fold (\<lambda>c (a::int). min a (f c)) xs acc \<and> fold (\<lambda>c a. min a (f c)) xs acc \<le> hi"
  by (induction xs arbitrary: acc) auto

lemma fold_map_fst:
  "fold g (map fst xs) acc = fold (\<lambda>x. g (fst x)) xs acc"
  by (induction xs arbitrary: acc) auto

lemma window_step_max:
  assumes "alpha = max a0 v" "alpha < b"
    and "bounded_to alpha b r = bounded_to alpha b m"
    and "bounded_to a0 b v = bounded_to a0 b acc"
  shows "bounded_to a0 b (max v r) = bounded_to a0 b (max acc m)"
  using assms unfolding bounded_to_def by (simp add: max_def min_def split: if_splits)

lemma window_step_min:
  assumes "beta = min b0 v" "a < beta"
    and "bounded_to a beta r = bounded_to a beta m"
    and "bounded_to a b0 v = bounded_to a b0 acc"
  shows "bounded_to a b0 (min v r) = bounded_to a b0 (min acc m)"
  using assms unfolding bounded_to_def by (simp add: max_def min_def split: if_splits)

lemma window_cut_max:
  assumes "a0 < b" "b \<le> max a0 v" "bounded_to a0 b v = bounded_to a0 b acc" "acc \<le> w"
  shows "bounded_to a0 b v = bounded_to a0 b w"
  using assms unfolding bounded_to_def by (simp add: max_def min_def split: if_splits)

lemma window_cut_min:
  assumes "a < b0" "min b0 v \<le> a" "bounded_to a b0 v = bounded_to a b0 acc" "w \<le> acc"
  shows "bounded_to a b0 v = bounded_to a b0 w"
  using assms unfolding bounded_to_def by (simp add: max_def min_def split: if_splits)

lemma mm_max_loop_value:
  assumes "\<And>c s. c \<in> fst ` set cs \<Longrightarrow> \<not> is_time_out s
             \<Longrightarrow> \<exists>m s'. rec s c = Inr ((val c, m), s') \<and> \<not> is_time_out s'"
    and "\<not> is_time_out self"
  shows "\<exists>m s'. mm_max_loop rec cs None cur acc best bf self
           = Inr ((fold (\<lambda>c a. max a (val c)) (map fst cs) acc, m), s') \<and> \<not> is_time_out s'"
  using assms
proof (induction cs arbitrary: acc best bf self)
  case Nil
  then show ?case by simp
next
  case (Cons x cs)
  obtain child content move where x: "x = (child, content, move)" by (cases x) auto
  from Cons.prems(1) [of child self] Cons.prems(2) x
  obtain m s' where r: "rec self child = Inr ((val child, m), s')" "\<not> is_time_out s'"
    by auto
  have rest: "\<exists>m s''. mm_max_loop rec cs None cur acc' best' bf' s'
           = Inr ((fold (\<lambda>c a. max a (val c)) (map fst cs) acc', m), s'') \<and> \<not> is_time_out s''"
    for acc' best' bf'
    by (rule Cons.IH) (use Cons.prems(1) r(2) in auto)
  show ?case
  proof (cases "val child > acc")
    case True
    then have "max acc (val child) = val child" by simp
    then show ?thesis using rest [of "val child" "Some move" "bf + 1"] r True x by simp
  next
    case False
    then have "max acc (val child) = acc" by simp
    then show ?thesis using rest [of acc best "bf + 1"] r False x by simp
  qed
qed

lemma mm_min_loop_value:
  assumes "\<And>c s. c \<in> fst ` set cs \<Longrightarrow> \<not> is_time_out s
             \<Longrightarrow> \<exists>m s'. rec s c = Inr ((val c, m), s') \<and> \<not> is_time_out s'"
    and "\<not> is_time_out self"
  shows "\<exists>m s'. mm_min_loop rec cs None cur acc best bf self
           = Inr ((fold (\<lambda>c a. min a (val c)) (map fst cs) acc, m), s') \<and> \<not> is_time_out s'"
  using assms
proof (induction cs arbitrary: acc best bf self)
  case Nil
  then show ?case by simp
next
  case (Cons x cs)
  obtain child content move where x: "x = (child, content, move)" by (cases x) auto
  from Cons.prems(1) [of child self] Cons.prems(2) x
  obtain m s' where r: "rec self child = Inr ((val child, m), s')" "\<not> is_time_out s'"
    by auto
  have rest: "\<exists>m s''. mm_min_loop rec cs None cur acc' best' bf' s'
           = Inr ((fold (\<lambda>c a. min a (val c)) (map fst cs) acc', m), s'') \<and> \<not> is_time_out s''"
    for acc' best' bf'
    by (rule Cons.IH) (use Cons.prems(1) r(2) in auto)
  show ?case
  proof (cases "val child < acc")
    case True
    then have "min acc (val child) = val child" by simp
    then show ?thesis using rest [of "val child" "Some move" "bf + 1"] r True x by simp
  next
    case False
    then have "min acc (val child) = acc" by simp
    then show ?thesis using rest [of acc best "bf + 1"] r False x by simp
  qed
qed


lemma ab_max_loop_value:
  assumes rec: "\<And>c s a b. c \<in> fst ` set cs \<Longrightarrow> \<not> is_time_out s \<Longrightarrow> a < b
             \<Longrightarrow> MIN_HEURISTIC_SCORE \<le> a \<Longrightarrow> b \<le> MAX_HEURISTIC_SCORE
             \<Longrightarrow> \<exists>v m s'. rec s c a b = Inr ((v, m), s') \<and> \<not> is_time_out s'
                    \<and> bounded_to a b v = bounded_to a b (val c)
                    \<and> MIN_HEURISTIC_SCORE \<le> v \<and> v \<le> MAX_HEURISTIC_SCORE"
    and "\<not> is_time_out self"
    and "alpha < beta" "MIN_HEURISTIC_SCORE \<le> a0" "beta \<le> MAX_HEURISTIC_SCORE"
    and "alpha = max a0 v0" "MIN_HEURISTIC_SCORE \<le> v0" "v0 \<le> MAX_HEURISTIC_SCORE"
    and "bounded_to a0 beta v0 = bounded_to a0 beta acc"
  shows "\<exists>v m s'. ab_max_loop rec cs None cur alpha beta (v0, mv) bf self = Inr ((v, m), s')
           \<and> \<not> is_time_out s'
           \<and> bounded_to a0 beta v = bounded_to a0 beta (fold (\<lambda>c a. max a (val c)) (map fst cs) acc)
           \<and> MIN_HEURISTIC_SCORE \<le> v \<and> v \<le> MAX_HEURISTIC_SCORE"
  using assms
proof (induction cs arbitrary: alpha v0 mv bf self acc)
  case Nil
  then show ?case by simp
next
  case (Cons x cs)
  obtain child content move where x: "x = (child, content, move)" by (cases x) auto
  have a0: "a0 \<le> alpha" "MIN_HEURISTIC_SCORE \<le> alpha" "a0 < beta"
    using Cons.prems by auto
  from Cons.prems(1) [of child self alpha beta] Cons.prems(2,3,5) a0 x
  obtain r m s' where r: "rec self child alpha beta = Inr ((r, m), s')" "\<not> is_time_out s'"
      "bounded_to alpha beta r = bounded_to alpha beta (val child)"
      "MIN_HEURISTIC_SCORE \<le> r" "r \<le> MAX_HEURISTIC_SCORE"
    by auto
  define v1 where "v1 = max v0 r"
  define mv1 where "mv1 = (if r > v0 then Some move else mv)"
  define alpha1 where "alpha1 = max alpha v1"
  have vb: "(if r > v0 then (r, Some move) else (v0, mv)) = (v1, mv1)"
    by (simp add: v1_def mv1_def max_def)
  have al: "(if v1 > alpha then v1 else alpha) = alpha1"
    by (simp add: alpha1_def max_def)
  have alpha1: "alpha1 = max a0 v1"
    using Cons.prems(6) by (simp add: alpha1_def v1_def)
  have v1b: "MIN_HEURISTIC_SCORE \<le> v1" "v1 \<le> MAX_HEURISTIC_SCORE"
    using Cons.prems(7,8) r(4,5) by (auto simp: v1_def)
  have inv1: "bounded_to a0 beta v1 = bounded_to a0 beta (max acc (val child))"
    unfolding v1_def
    by (rule window_step_max [OF Cons.prems(6) Cons.prems(3) r(3) Cons.prems(9)])
  have unfold: "ab_max_loop rec (x # cs) None cur alpha beta (v0, mv) bf self =
      (if beta \<le> alpha1 then
         Inr ((v1, deref mv1 content), update_average_branching s' (bf + 1))
       else ab_max_loop rec cs None cur alpha1 beta (v1, mv1) (bf + 1) s')"
    by (simp only: x ab_max_loop.simps ab_min_loop.simps r(1) sum.case prod.case r(2) if_False
          Let_def fst_conv snd_conv vb al)
  show ?case
  proof (cases "beta \<le> alpha1")
    case True
    have "bounded_to a0 beta v1
          = bounded_to a0 beta (fold (\<lambda>c a. max a (val c)) (map fst cs) (max acc (val child)))"
      by (rule window_cut_max [OF a0(3) _ inv1 fold_max_ge]) (use True alpha1 in simp)
    then show ?thesis
      using True unfold r(2) v1b by (simp add: x)
  next
    case False
    have "\<exists>v m s''. ab_max_loop rec cs None cur alpha1 beta (v1, mv1) (bf + 1) s' = Inr ((v, m), s'')
           \<and> \<not> is_time_out s''
           \<and> bounded_to a0 beta v
               = bounded_to a0 beta (fold (\<lambda>c a. max a (val c)) (map fst cs) (max acc (val child)))
           \<and> MIN_HEURISTIC_SCORE \<le> v \<and> v \<le> MAX_HEURISTIC_SCORE"
    proof (rule Cons.IH)
      show "\<exists>v m s'. rec s c a b = Inr ((v, m), s') \<and> \<not> is_time_out s'
                    \<and> bounded_to a b v = bounded_to a b (val c)
                    \<and> MIN_HEURISTIC_SCORE \<le> v \<and> v \<le> MAX_HEURISTIC_SCORE"
        if "c \<in> fst ` set cs" "\<not> is_time_out s" "a < b" "MIN_HEURISTIC_SCORE \<le> a"
           "b \<le> MAX_HEURISTIC_SCORE" for c s a b
        using Cons.prems(1) [of c s a b] that by auto
    qed (use False r(2) Cons.prems(4,5) alpha1 v1b inv1 in auto)
    then show ?thesis
      using False unfold by (simp add: x)
  qed
qed

lemma ab_min_loop_value:
  assumes rec: "\<And>c s a b. c \<in> fst ` set cs \<Longrightarrow> \<not> is_time_out s \<Longrightarrow> a < b
             \<Longrightarrow> MIN_HEURISTIC_SCORE \<le> a \<Longrightarrow> b \<le> MAX_HEURISTIC_SCORE
             \<Longrightarrow> \<exists>v m s'. rec s c a b = Inr ((v, m), s') \<and> \<not> is_time_out s'
                    \<and> bounded_to a b v = bounded_to a b (val c)
                    \<and> MIN_HEURISTIC_SCORE \<le> v \<and> v \<le> MAX_HEURISTIC_SCORE"
    and "\<not> is_time_out self"
    and "alpha < beta" "MIN_HEURISTIC_SCORE \<le> alpha" "b0 \<le> MAX_HEURISTIC_SCORE"
    and "beta = min b0 v0" "MIN_HEURISTIC_SCORE \<le> v0" "v0 \<le> MAX_HEURISTIC_SCORE"
    and "bounded_to alpha b0 v0 = bounded_to alpha b0 acc"
    and "cs \<noteq> [] \<or> bf \<noteq> None"
  shows "\<exists>v m s'. ab_min_loop rec cs None cur alpha beta (v0, mv) bf self = Inr ((v, m), s')
           \<and> \<not> is_time_out s'
           \<and> bounded_to alpha b0 v = bounded_to alpha b0 (fold (\<lambda>c a. min a (val c)) (map fst cs) acc)
           \<and> MIN_HEURISTIC_SCORE \<le> v \<and> v \<le> MAX_HEURISTIC_SCORE"
  using assms
proof (induction cs arbitrary: beta v0 mv bf self acc)
  case Nil
  then show ?case by auto
next
  case (Cons x cs)
  obtain child content move where x: "x = (child, content, move)" by (cases x) auto
  have b0: "beta \<le> b0" "beta \<le> MAX_HEURISTIC_SCORE" "alpha < b0"
    using Cons.prems by auto
  from Cons.prems(1) [of child self alpha beta] Cons.prems(2,3,4) b0 x
  obtain r m s' where r: "rec self child alpha beta = Inr ((r, m), s')" "\<not> is_time_out s'"
      "bounded_to alpha beta r = bounded_to alpha beta (val child)"
      "MIN_HEURISTIC_SCORE \<le> r" "r \<le> MAX_HEURISTIC_SCORE"
    by auto
  define v1 where "v1 = min v0 r"
  define mv1 where "mv1 = (if r < v0 then Some move else mv)"
  define beta1 where "beta1 = min beta v1"
  have vb: "(if r < v0 then (r, Some move) else (v0, mv)) = (v1, mv1)"
    by (simp add: v1_def mv1_def min_def)
  have al: "(if v1 < beta then v1 else beta) = beta1"
    by (simp add: beta1_def min_def)
  have beta1: "beta1 = min b0 v1"
    using Cons.prems(6) by (simp add: beta1_def v1_def)
  have v1b: "MIN_HEURISTIC_SCORE \<le> v1" "v1 \<le> MAX_HEURISTIC_SCORE"
    using Cons.prems(7,8) r(4,5) by (auto simp: v1_def)
  have inv1: "bounded_to alpha b0 v1 = bounded_to alpha b0 (min acc (val child))"
    unfolding v1_def
    by (rule window_step_min [OF Cons.prems(6) Cons.prems(3) r(3) Cons.prems(9)])
  have unfold: "ab_min_loop rec (x # cs) None cur alpha beta (v0, mv) bf self =
      (if beta1 \<le> alpha then
         Inr ((v1, deref mv1 content), update_average_branching s' 0)
       else ab_min_loop rec cs None cur alpha beta1 (v1, mv1) (Some 0) s')"
    by (simp only: x ab_max_loop.simps ab_min_loop.simps r(1) sum.case prod.case r(2) if_False
          Let_def fst_conv snd_conv vb al)
  show ?case
  proof (cases "beta1 \<le> alpha")
    case True
    have "bounded_to alpha b0 v1
          = bounded_to alpha b0 (fold (\<lambda>c a. min a (val c)) (map fst cs) (min acc (val child)))"
      by (rule window_cut_min [OF b0(3) _ inv1 fold_min_le]) (use True beta1 in simp)
    then show ?thesis
      using True unfold r(2) v1b by (simp add: x)
  next
    case False
    have "\<exists>v m s''. ab_min_loop rec cs None cur alpha beta1 (v1, mv1) (Some 0) s' = Inr ((v, m), s'')
           \<and> \<not> is_time_out s''
           \<and> bounded_to alpha b0 v
               = bounded_to alpha b0 (fold (\<lambda>c a. min a (val c)) (map fst cs) (min acc (val child)))
           \<and> MIN_HEURISTIC_SCORE \<le> v \<and> v \<le> MAX_HEURISTIC_SCORE"
    proof (rule Cons.IH)
      show "\<exists>v m s'. rec s c a b = Inr ((v, m), s') \<and> \<not> is_time_out s'
                    \<and> bounded_to a b v = bounded_to a b (val c)
                    \<and> MIN_HEURISTIC_SCORE \<le> v \<and> v \<le> MAX_HEURISTIC_SCORE"
        if "c \<in> fst ` set cs" "\<not> is_time_out s" "a < b" "MIN_HEURISTIC_SCORE \<le> a"
           "b \<le> MAX_HEURISTIC_SCORE" for c s a b
        using Cons.prems(1) [of c s a b] that by auto
    qed (use False r(2) Cons.prems(4,5) beta1 v1b inv1 in auto)
    then show ?thesis
      using False unfold by (simp add: x)
  qed
qed


lemma evaluate_leaf_value:
  "e node = Inr v \<Longrightarrow>
   evaluate_leaf self node = Inr ((leaf_value node, None), update_evaluations_per_depth self)"
  by (simp add: evaluate_leaf_def leaf_value_def Let_def)

lemma minimax_returns_value:
  assumes notm: "\<And>k. \<not> tm k"
    and leaf: "\<And>n. Inv n \<Longrightarrow> \<exists>v. e n = Inr v"
    and kids: "\<And>n. Inv n \<Longrightarrow> snd (get_children n) = None
                       \<and> (\<forall>c \<in> fst ` set (fst (get_children n)). Inv c)"
  shows "Inv node \<Longrightarrow> \<not> is_time_out self
         \<Longrightarrow> \<exists>m s'. minimax tm self node d mx = Inr ((minimax_value d node mx, m), s')
                   \<and> \<not> is_time_out s'"
proof -
  have tu: "\<And>s. time_is_up tm s = False" using notm by (simp add: time_is_up_def)
  show "Inv node \<Longrightarrow> \<not> is_time_out self
         \<Longrightarrow> \<exists>m s'. minimax tm self node d mx = Inr ((minimax_value d node mx, m), s')
                   \<and> \<not> is_time_out s'"
  proof (induction d arbitrary: node self mx)
  case 0
  from leaf [OF 0(1)] obtain v where "e node = Inr v" by blast
  then show ?case
    using 0(2) tu by (simp add: evaluate_leaf_value)
next
  case (Suc d)
  from leaf [OF Suc.prems(1)] obtain v where v: "e node = Inr v" by blast
  show ?case
  proof (cases "is_finished node")
    case True
    then show ?thesis
      using Suc.prems(2) tu v by (simp add: evaluate_leaf_value)
  next
    case False
    obtain cs where cs: "get_children node = (cs, None)"
      using kids [OF Suc.prems(1)] by (cases "get_children node") auto
    have inv: "\<And>c. c \<in> fst ` set cs \<Longrightarrow> Inv c"
      using kids [OF Suc.prems(1)] cs by auto
    have t: "\<not> is_time_out (clock_tick self)" using Suc.prems(2) by simp
    show ?thesis
    proof (cases mx)
      case True
      have "\<exists>m s'. mm_max_loop (\<lambda>s child. minimax tm s child d False) cs None (final_move node)
                MIN_HEURISTIC_SCORE None 0 (clock_tick self)
           = Inr ((fold (\<lambda>c a. max a (minimax_value d c False)) (map fst cs) MIN_HEURISTIC_SCORE, m), s')
             \<and> \<not> is_time_out s'"
      proof (rule mm_max_loop_value [OF _ t])
        fix c :: Game and s :: Game assume "c \<in> fst ` set cs" "\<not> is_time_out s"
        then show "\<exists>m s'. minimax tm s c d False = Inr ((minimax_value d c False, m), s')
                     \<and> \<not> is_time_out s'"
          using Suc.IH [of c s False] inv by blast
      qed
      then show ?thesis
        using True False cs tu by simp
    next
      case mn: False
      have "\<exists>m s'. mm_min_loop (\<lambda>s child. minimax tm s child d True) cs None (final_move node)
                MAX_HEURISTIC_SCORE None 0 (clock_tick self)
           = Inr ((fold (\<lambda>c a. min a (minimax_value d c True)) (map fst cs) MAX_HEURISTIC_SCORE, m), s')
             \<and> \<not> is_time_out s'"
      proof (rule mm_min_loop_value [OF _ t])
        fix c :: Game and s :: Game assume "c \<in> fst ` set cs" "\<not> is_time_out s"
        then show "\<exists>m s'. minimax tm s c d True = Inr ((minimax_value d c True, m), s')
                     \<and> \<not> is_time_out s'"
          using Suc.IH [of c s True] inv by blast
      qed
      then show ?thesis
        using mn False cs tu by simp
    qed
  qed
qed
qed

lemma minimax_value_bounds:
  assumes leaf: "\<And>n. Inv n \<Longrightarrow> \<exists>v. e n = Inr v \<and> MIN_HEURISTIC_SCORE \<le> v \<and> v \<le> MAX_HEURISTIC_SCORE"
    and kids: "\<And>n. Inv n \<Longrightarrow> snd (get_children n) = None
                       \<and> (\<forall>c \<in> fst ` set (fst (get_children n)). Inv c)"
  shows "Inv node \<Longrightarrow> MIN_HEURISTIC_SCORE \<le> minimax_value d node mx
                     \<and> minimax_value d node mx \<le> MAX_HEURISTIC_SCORE"
proof (induction d arbitrary: node mx)
  case 0
  then show ?case using leaf [OF 0] by (auto simp: leaf_value_def)
next
  case (Suc d)
  have lv: "MIN_HEURISTIC_SCORE \<le> leaf_value node \<and> leaf_value node \<le> MAX_HEURISTIC_SCORE"
    using leaf [OF Suc.prems] by (auto simp: leaf_value_def)
  have mm: "MIN_HEURISTIC_SCORE \<le> MAX_HEURISTIC_SCORE"
    by (simp add: MIN_HEURISTIC_SCORE_def MAX_HEURISTIC_SCORE_def)
  have inv: "\<And>c. c \<in> set (map fst (fst (get_children node))) \<Longrightarrow> Inv c"
    using kids [OF Suc.prems] by auto
  show ?case
    using lv mm
      fold_max_bounds [of MIN_HEURISTIC_SCORE MIN_HEURISTIC_SCORE MAX_HEURISTIC_SCORE
        "map fst (fst (get_children node))" "\<lambda>c. minimax_value d c False"]
      fold_min_bounds [of MIN_HEURISTIC_SCORE MAX_HEURISTIC_SCORE MAX_HEURISTIC_SCORE
        "map fst (fst (get_children node))" "\<lambda>c. minimax_value d c True"]
      Suc.IH inv
    by auto
qed

lemma alpha_beta_returns_value:
  assumes notm: "\<And>k. \<not> tm k"
    and leaf: "\<And>n. Inv n \<Longrightarrow> \<exists>v. e n = Inr v \<and> MIN_HEURISTIC_SCORE \<le> v \<and> v \<le> MAX_HEURISTIC_SCORE"
    and kids: "\<And>n. Inv n \<Longrightarrow> snd (get_children n) = None
                       \<and> (\<forall>c \<in> fst ` set (fst (get_children n)). Inv c)"
    and some: "\<And>n. Inv n \<Longrightarrow> \<not> is_finished n \<Longrightarrow> fst (get_children n) \<noteq> []"
  shows "Inv node \<Longrightarrow> \<not> is_time_out self \<Longrightarrow> a < b
         \<Longrightarrow> MIN_HEURISTIC_SCORE \<le> a \<Longrightarrow> b \<le> MAX_HEURISTIC_SCORE
         \<Longrightarrow> \<exists>v m s'. alpha_beta tm self node d a b mx = Inr ((v, m), s') \<and> \<not> is_time_out s'
               \<and> bounded_to a b v = bounded_to a b (minimax_value d node mx)
               \<and> MIN_HEURISTIC_SCORE \<le> v \<and> v \<le> MAX_HEURISTIC_SCORE"
proof -
  have tu: "\<And>s. time_is_up tm s = False" using notm by (simp add: time_is_up_def)
  show "Inv node \<Longrightarrow> \<not> is_time_out self \<Longrightarrow> a < b
         \<Longrightarrow> MIN_HEURISTIC_SCORE \<le> a \<Longrightarrow> b \<le> MAX_HEURISTIC_SCORE
         \<Longrightarrow> \<exists>v m s'. alpha_beta tm self node d a b mx = Inr ((v, m), s') \<and> \<not> is_time_out s'
               \<and> bounded_to a b v = bounded_to a b (minimax_value d node mx)
               \<and> MIN_HEURISTIC_SCORE \<le> v \<and> v \<le> MAX_HEURISTIC_SCORE"
  proof (induction d arbitrary: node self a b mx)
  case 0
  from leaf [OF 0(1)] obtain v where v: "e node = Inr v"
      "MIN_HEURISTIC_SCORE \<le> v" "v \<le> MAX_HEURISTIC_SCORE" by blast
  then have "leaf_value node = v" by (simp add: leaf_value_def)
  then show ?case
    using 0(2) tu v by (simp add: evaluate_leaf_value)
next
  case (Suc d)
  from leaf [OF Suc.prems(1)] obtain v where v: "e node = Inr v"
      "MIN_HEURISTIC_SCORE \<le> v" "v \<le> MAX_HEURISTIC_SCORE" by blast
  then have lv: "leaf_value node = v" by (simp add: leaf_value_def)
  have mm: "MIN_HEURISTIC_SCORE \<le> MAX_HEURISTIC_SCORE"
    by (simp add: MIN_HEURISTIC_SCORE_def MAX_HEURISTIC_SCORE_def)
  show ?case
  proof (cases "is_finished node")
    case True
    then show ?thesis
      using Suc.prems(2) tu v lv by (simp add: evaluate_leaf_value)
  next
    case False
    obtain cs where cs: "get_children node = (cs, None)"
      using kids [OF Suc.prems(1)] by (cases "get_children node") auto
    have inv: "\<And>c. c \<in> fst ` set cs \<Longrightarrow> Inv c"
      using kids [OF Suc.prems(1)] cs by auto
    have ne: "cs \<noteq> []" using some [OF Suc.prems(1) False] cs by simp
    have t: "\<not> is_time_out (clock_tick self)" using Suc.prems(2) by simp
    show ?thesis
    proof (cases mx)
      case True
      have "\<exists>v m s'. ab_max_loop (\<lambda>s child a b. alpha_beta tm s child d a b False) cs None
                (final_move node) a b (MIN_HEURISTIC_SCORE, None) 0 (clock_tick self) = Inr ((v, m), s')
           \<and> \<not> is_time_out s'
           \<and> bounded_to a b v
              = bounded_to a b (fold (\<lambda>c a. max a (minimax_value d c False)) (map fst cs) MIN_HEURISTIC_SCORE)
           \<and> MIN_HEURISTIC_SCORE \<le> v \<and> v \<le> MAX_HEURISTIC_SCORE"
      proof (rule ab_max_loop_value [OF _ t Suc.prems(3,4,5)])
        fix c :: Game and s :: Game and a' b' :: int
        assume "c \<in> fst ` set cs" "\<not> is_time_out s" "a' < b'"
               "MIN_HEURISTIC_SCORE \<le> a'" "b' \<le> MAX_HEURISTIC_SCORE"
        then show "\<exists>v m s'. alpha_beta tm s c d a' b' False = Inr ((v, m), s') \<and> \<not> is_time_out s'
               \<and> bounded_to a' b' v = bounded_to a' b' (minimax_value d c False)
               \<and> MIN_HEURISTIC_SCORE \<le> v \<and> v \<le> MAX_HEURISTIC_SCORE"
          using Suc.IH [of c s a' b' False] inv by blast
      next
        show "a = max a MIN_HEURISTIC_SCORE" using Suc.prems(4) by simp
      qed (use mm in auto)
      then show ?thesis
        using True False cs tu by simp
    next
      case mn: False
      have "\<exists>v m s'. ab_min_loop (\<lambda>s child a b. alpha_beta tm s child d a b True) cs None
                (final_move node) a b (MAX_HEURISTIC_SCORE, None) None (clock_tick self) = Inr ((v, m), s')
           \<and> \<not> is_time_out s'
           \<and> bounded_to a b v
              = bounded_to a b (fold (\<lambda>c a. min a (minimax_value d c True)) (map fst cs) MAX_HEURISTIC_SCORE)
           \<and> MIN_HEURISTIC_SCORE \<le> v \<and> v \<le> MAX_HEURISTIC_SCORE"
      proof (rule ab_min_loop_value [OF _ t Suc.prems(3,4,5)])
        fix c :: Game and s :: Game and a' b' :: int
        assume "c \<in> fst ` set cs" "\<not> is_time_out s" "a' < b'"
               "MIN_HEURISTIC_SCORE \<le> a'" "b' \<le> MAX_HEURISTIC_SCORE"
        then show "\<exists>v m s'. alpha_beta tm s c d a' b' True = Inr ((v, m), s') \<and> \<not> is_time_out s'
               \<and> bounded_to a' b' v = bounded_to a' b' (minimax_value d c True)
               \<and> MIN_HEURISTIC_SCORE \<le> v \<and> v \<le> MAX_HEURISTIC_SCORE"
          using Suc.IH [of c s a' b' True] inv by blast
      next
        show "b = min b MAX_HEURISTIC_SCORE" using Suc.prems(5) by simp
      qed (use mm ne in auto)
      then show ?thesis
        using mn False cs tu by simp
    qed
  qed
qed
qed

lemma alpha_beta_agrees_with_minimax:
  assumes notm: "\<And>k. \<not> tm k"
    and leaf: "\<And>n. Inv n \<Longrightarrow> \<exists>v. e n = Inr v \<and> MIN_HEURISTIC_SCORE \<le> v \<and> v \<le> MAX_HEURISTIC_SCORE"
    and kids: "\<And>n. Inv n \<Longrightarrow> snd (get_children n) = None
                       \<and> (\<forall>c \<in> fst ` set (fst (get_children n)). Inv c)"
    and some: "\<And>n. Inv n \<Longrightarrow> \<not> is_finished n \<Longrightarrow> fst (get_children n) \<noteq> []"
    and "Inv node" "\<not> is_time_out self_a" "\<not> is_time_out self_m"
  shows "\<exists>v ma sa mb sb.
           alpha_beta tm self_a node d MIN_HEURISTIC_SCORE MAX_HEURISTIC_SCORE mx = Inr ((v, ma), sa)
         \<and> minimax tm self_m node d mx = Inr ((v, mb), sb)"
proof -
  have mm: "MIN_HEURISTIC_SCORE < MAX_HEURISTIC_SCORE"
    by (simp add: MIN_HEURISTIC_SCORE_def MAX_HEURISTIC_SCORE_def)
  from alpha_beta_returns_value [of tm Inv node self_a MIN_HEURISTIC_SCORE MAX_HEURISTIC_SCORE d mx,
        OF notm leaf kids some assms(5,6) mm]
  obtain v ma sa where ab: "alpha_beta tm self_a node d MIN_HEURISTIC_SCORE MAX_HEURISTIC_SCORE mx
        = Inr ((v, ma), sa)"
     "bounded_to MIN_HEURISTIC_SCORE MAX_HEURISTIC_SCORE v
        = bounded_to MIN_HEURISTIC_SCORE MAX_HEURISTIC_SCORE (minimax_value d node mx)"
     "MIN_HEURISTIC_SCORE \<le> v" "v \<le> MAX_HEURISTIC_SCORE"
    by auto
  have leaf': "\<And>n. Inv n \<Longrightarrow> \<exists>v. e n = Inr v" using leaf by blast
  from minimax_returns_value [of tm Inv node self_m d mx, OF notm leaf' kids assms(5,7)]
  obtain mb sb where mmx: "minimax tm self_m node d mx = Inr ((minimax_value d node mx, mb), sb)"
    by auto
  from minimax_value_bounds [of Inv node d mx, OF leaf kids assms(5)]
  have "v = minimax_value d node mx"
    using ab(2,3,4) by (simp add: bounded_to_def max_def min_def split: if_splits)
  then show ?thesis using ab(1) mmx by blast
qed

subsection \<open>Well-formed games are preserved by actions\<close>

lemma wf_game_start: "wf_game (start_game Attacker)" "wf_game (start_game Defender)"
  by code_simp+

lemma cell_in_board:
  assumes "wf_board g"
  shows "Some u \<in> set (concat (board g)) \<longleftrightarrow> (\<exists>c. cell_at g c = Some u)"
proof
  assume "Some u \<in> set (concat (board g))"
  then obtain r where r: "r \<in> set (board g)" "Some u \<in> set r" by auto
  then obtain i where i: "i < length (board g)" "board g ! i = r"
    by (auto simp: in_set_conv_nth)
  from r obtain j where j: "j < length r" "r ! j = Some u"
    by (auto simp: in_set_conv_nth)
  have len: "length (board g) = nat (dim (options g))" "length r = nat (dim (options g))"
    using assms r by (auto simp: wf_board_def)
  have "is_valid_coord g \<lparr>row = int i, col = int j\<rparr>"
    using i j len by (auto simp: is_valid_coord_iff)
  then have "cell_at g \<lparr>row = int i, col = int j\<rparr> = Some u"
    using i j by (simp add: cell_at_def)
  then show "\<exists>c. cell_at g c = Some u" by blast
next
  assume "\<exists>c. cell_at g c = Some u"
  then obtain c where c: "cell_at g c = Some u" by blast
  then have v: "is_valid_coord g c" by (auto simp: cell_at_def split: if_splits)
  note r = wf_board_row [OF assms v]
  have "board g ! nat (row c) \<in> set (board g)" using r(1) by simp
  moreover have "Some u \<in> set (board g ! nat (row c))"
    using c v r(3) by (auto simp: cell_at_def in_set_conv_nth)
  ultimately show "Some u \<in> set (concat (board g))" by auto
qed

lemma wf_game_cells:
  "wf_game g \<longleftrightarrow>
     wf_board g \<and> dim (options g) \<le> 41
     \<and> (\<forall>c u. cell_at g c = Some u \<longrightarrow> 0 \<le> health u \<and> health u \<le> 9)
     \<and> (attacker_has_ai g \<longrightarrow> (\<exists>c u. cell_at g c = Some u \<and> player u = Attacker \<and> type u = AI))
     \<and> (defender_has_ai g \<longrightarrow> (\<exists>c u. cell_at g c = Some u \<and> player u = Defender \<and> type u = AI))"
proof (cases "wf_board g")
  case False
  then show ?thesis by (simp add: wf_game_def)
next
  case True
  have ex: "(\<exists>x \<in> S. case x of None \<Rightarrow> False | Some u \<Rightarrow> P u) \<longleftrightarrow> (\<exists>u. Some u \<in> S \<and> P u)"
    for S :: "Unit option set" and P
  proof
    assume "\<exists>x \<in> S. case x of None \<Rightarrow> False | Some u \<Rightarrow> P u"
    then obtain x where x: "x \<in> S" "case x of None \<Rightarrow> False | Some u \<Rightarrow> P u" by blast
    then show "\<exists>u. Some u \<in> S \<and> P u" by (cases x) auto
  next
    assume "\<exists>u. Some u \<in> S \<and> P u"
    then obtain u where "Some u \<in> S" "P u" by blast
    then show "\<exists>x \<in> S. case x of None \<Rightarrow> False | Some u \<Rightarrow> P u"
      by (intro bexI [of _ "Some u"]) auto
  qed
  have al: "(\<forall>x \<in> S. case x of None \<Rightarrow> True | Some u \<Rightarrow> P u) \<longleftrightarrow> (\<forall>u. Some u \<in> S \<longrightarrow> P u)"
    for S :: "Unit option set" and P
  proof
    assume "\<forall>x \<in> S. case x of None \<Rightarrow> True | Some u \<Rightarrow> P u"
    then show "\<forall>u. Some u \<in> S \<longrightarrow> P u" by force
  next
    assume r: "\<forall>u. Some u \<in> S \<longrightarrow> P u"
    show "\<forall>x \<in> S. case x of None \<Rightarrow> True | Some u \<Rightarrow> P u"
    proof
      fix x assume "x \<in> S"
      then show "case x of None \<Rightarrow> True | Some u \<Rightarrow> P u" using r by (cases x) auto
    qed
  qed
  have h: "(\<forall>x \<in> set (concat (board g)). case x of None \<Rightarrow> True | Some u \<Rightarrow> P u)
           \<longleftrightarrow> (\<forall>c u. cell_at g c = Some u \<longrightarrow> P u)" for P
    unfolding al cell_in_board [OF True] by blast
  have a: "(\<exists>x \<in> set (concat (board g)). case x of None \<Rightarrow> False | Some u \<Rightarrow> P u)
           \<longleftrightarrow> (\<exists>c u. cell_at g c = Some u \<and> P u)" for P
    unfolding ex cell_in_board [OF True] by blast
  show ?thesis
    unfolding wf_game_def h a using True by simp
qed

lemma set_cell_wf:
  assumes "wf_board g"
  shows "\<exists>b'. set_cell g c u = Inr (g\<lparr>board := b'\<rparr>) \<and> wf_board (g\<lparr>board := b'\<rparr>)
          \<and> (\<forall>c'. cell_at (g\<lparr>board := b'\<rparr>) c'
                 = (if c' = c \<and> is_valid_coord g c then u else cell_at g c'))"
proof (cases "is_valid_coord g c")
  case False
  have "g\<lparr>board := board g\<rparr> = g" by simp
  then show ?thesis
    using False assms by (intro exI [of _ "board g"]) (simp add: set_cell_def)
next
  case True
  note r = wf_board_row [OF assms True]
  have v: "0 \<le> row c" "0 \<le> col c" using True by (auto simp: is_valid_coord_iff)
  let ?r = "board g ! nat (row c)"
  let ?b = "(board g)[nat (row c) := ?r[nat (col c) := u]]"
  have 1: "py_index (board g) (row c) = Inr ?r" using r(1) v by (simp add: py_index_def)
  have 2: "py_setitem ?r (col c) u = Inr (?r[nat (col c) := u])"
    using r(3) v by (simp add: py_setitem_def)
  have 3: "py_setitem (board g) (row c) (?r[nat (col c) := u]) = Inr ?b"
    using r(1) v by (simp add: py_setitem_def)
  have eq: "set_cell g c u = Inr (g\<lparr>board := ?b\<rparr>)"
    using True 1 2 3 by (simp add: set_cell_def)
  have wf: "wf_board (g\<lparr>board := ?b\<rparr>)"
    using assms r by (auto simp: wf_board_def dest!: set_update_subset_insert [THEN subsetD])
  have cells: "cell_at (g\<lparr>board := ?b\<rparr>) c' = (if c' = c \<and> is_valid_coord g c then u else cell_at g c')"
    for c'
  proof (cases "is_valid_coord g c'")
    case False
    then show ?thesis using True by (auto simp: cell_at_def is_valid_coord_def)
  next
    case v': True
    note r' = wf_board_row [OF assms v']
    have p: "0 \<le> row c'" "0 \<le> col c'" using v' by (auto simp: is_valid_coord_iff)
    have ceq: "c' = c \<longleftrightarrow> nat (row c') = nat (row c) \<and> nat (col c') = nat (col c)"
      using p v by (cases c; cases c') auto
    have valid': "is_valid_coord (g\<lparr>board := ?b\<rparr>) c'" using v' by (simp add: is_valid_coord_def)
    show ?thesis
      using valid' v' True r r' ceq
      by (auto simp: cell_at_def nth_list_update)
  qed
  show ?thesis using eq wf cells by blast
qed


lemma flag_updates [simp]:
  "cell_at (g\<lparr>attacker_has_ai := x\<rparr>) c = cell_at g c"
  "cell_at (g\<lparr>defender_has_ai := x\<rparr>) c = cell_at g c"
  "wf_board (g\<lparr>attacker_has_ai := x\<rparr>) = wf_board g"
  "wf_board (g\<lparr>defender_has_ai := x\<rparr>) = wf_board g"
  by (simp_all add: cell_at_def wf_board_def is_valid_coord_def)

lemma Unit_mod_health_fields [simp]:
  "player (Unit_mod_health u d) = player u"
  "type (Unit_mod_health u d) = type u"
  "0 \<le> health (Unit_mod_health u d)"
  "health (Unit_mod_health u d) \<le> 9"
  by (simp_all add: Unit_mod_health_def Let_def)

lemma mod_health_wf:
  assumes "wf_game g"
  shows "\<exists>g'. mod_health g c d = Inr g' \<and> wf_game g' \<and> options g' = options g
              \<and> next_player g' = next_player g \<and> turns_played g' = turns_played g"
proof (cases "cell_at g c")
  case None
  then show ?thesis
    using assms by (simp add: mod_health_def get_wf wf_game_cells)
next
  case (Some t)
  from assms have wfb: "wf_board g" by (simp add: wf_game_cells)
  have v: "is_valid_coord g c" using Some by (auto simp: cell_at_def split: if_splits)
  let ?t = "Unit_mod_health t d"
  from set_cell_wf [OF wfb, of c "Some ?t"] v
  obtain b1 where b1: "set_cell g c (Some ?t) = Inr (g\<lparr>board := b1\<rparr>)" "wf_board (g\<lparr>board := b1\<rparr>)"
      "\<And>c'. cell_at (g\<lparr>board := b1\<rparr>) c' = (if c' = c then Some ?t else cell_at g c')"
    by auto
  let ?g1 = "g\<lparr>board := b1\<rparr>"
  have g1: "wf_game ?g1"
    unfolding wf_game_cells
  proof (intro conjI)
    show "wf_board ?g1" by (rule b1(2))
    show "dim (options ?g1) \<le> 41" using assms by (simp add: wf_game_cells)
    show "\<forall>c u. cell_at ?g1 c = Some u \<longrightarrow> 0 \<le> health u \<and> health u \<le> 9"
      using assms by (auto simp: wf_game_cells b1(3) split: if_splits)
    show "attacker_has_ai ?g1 \<longrightarrow> (\<exists>c u. cell_at ?g1 c = Some u \<and> player u = Attacker \<and> type u = AI)"
    proof
      assume "attacker_has_ai ?g1"
      then obtain x u where x: "cell_at g x = Some u" "player u = Attacker" "type u = AI"
        using assms by (auto simp: wf_game_cells)
      show "\<exists>c u. cell_at ?g1 c = Some u \<and> player u = Attacker \<and> type u = AI"
      proof (cases "x = c")
        case True
        then have "cell_at ?g1 c = Some ?t \<and> player ?t = Attacker \<and> type ?t = AI"
          using x Some by (simp add: b1(3))
        then show ?thesis by blast
      next
        case False
        then have "cell_at ?g1 x = Some u" using x by (simp add: b1(3))
        then show ?thesis using x by blast
      qed
    qed
    show "defender_has_ai ?g1 \<longrightarrow> (\<exists>c u. cell_at ?g1 c = Some u \<and> player u = Defender \<and> type u = AI)"
    proof
      assume "defender_has_ai ?g1"
      then obtain x u where x: "cell_at g x = Some u" "player u = Defender" "type u = AI"
        using assms by (auto simp: wf_game_cells)
      show "\<exists>c u. cell_at ?g1 c = Some u \<and> player u = Defender \<and> type u = AI"
      proof (cases "x = c")
        case True
        then have "cell_at ?g1 c = Some ?t \<and> player ?t = Defender \<and> type ?t = AI"
          using x Some by (simp add: b1(3))
        then show ?thesis by blast
      next
        case False
        then have "cell_at ?g1 x = Some u" using x by (simp add: b1(3))
        then show ?thesis using x by blast
      qed
    qed
  qed
  have get1: "get ?g1 c = Inr (Some ?t)" using b1(2,3) by (simp add: get_wf)
  have mh: "mod_health g c d = remove_dead ?g1 c"
    using Some b1(1) wfb by (simp add: mod_health_def get_wf)
  show ?thesis
  proof (cases "is_alive ?t")
    case True
    then have "remove_dead ?g1 c = Inr ?g1" using get1 by (simp add: remove_dead_def)
    then show ?thesis using mh g1 by simp
  next
    case False
    have v1: "is_valid_coord ?g1 c" using v by (simp add: is_valid_coord_def)
    from set_cell_wf [OF b1(2), of c None] v1
    obtain b2 where b2: "set_cell ?g1 c None = Inr (g\<lparr>board := b2\<rparr>)" "wf_board (g\<lparr>board := b2\<rparr>)"
        "\<And>c'. cell_at (g\<lparr>board := b2\<rparr>) c' = (if c' = c then None else cell_at ?g1 c')"
      by auto
    let ?g2 = "g\<lparr>board := b2\<rparr>"
    have cells2: "\<And>c'. cell_at ?g2 c' = (if c' = c then None else cell_at g c')"
      by (simp add: b2(3) b1(3))
    define g3 where "g3 = (if type ?t = AI then
                   (if player ?t = Attacker then ?g2\<lparr>attacker_has_ai := False\<rparr>
                    else ?g2\<lparr>defender_has_ai := False\<rparr>)
                 else ?g2)"
    have rd: "remove_dead ?g1 c = Inr g3"
      using False get1 b2(1) by (simp add: remove_dead_def g3_def)
    have cells3: "\<And>c'. cell_at g3 c' = (if c' = c then None else cell_at g c')"
      using cells2 by (simp add: g3_def)
    have wfb3: "wf_board g3" using b2(2) by (simp add: g3_def)
    have opt3: "options g3 = options g" "next_player g3 = next_player g"
      "turns_played g3 = turns_played g" by (simp_all add: g3_def)
    have fl3: "attacker_has_ai g3 \<Longrightarrow> attacker_has_ai g \<and> \<not> (type t = AI \<and> player t = Attacker)"
              "defender_has_ai g3 \<Longrightarrow> defender_has_ai g \<and> \<not> (type t = AI \<and> player t = Defender)"
      by (cases "player t"; auto simp: g3_def split: if_splits)+
    have "wf_game g3"
      unfolding wf_game_cells
    proof (intro conjI)
      show "wf_board g3" by (rule wfb3)
      show "dim (options g3) \<le> 41" using assms opt3 by (simp add: wf_game_cells)
      show "\<forall>c u. cell_at g3 c = Some u \<longrightarrow> 0 \<le> health u \<and> health u \<le> 9"
        using assms by (auto simp: wf_game_cells cells3 split: if_splits)
      show "attacker_has_ai g3 \<longrightarrow> (\<exists>c u. cell_at g3 c = Some u \<and> player u = Attacker \<and> type u = AI)"
      proof
        assume a: "attacker_has_ai g3"
        with fl3(1) obtain x u where x: "cell_at g x = Some u" "player u = Attacker" "type u = AI"
          using assms by (auto simp: wf_game_cells)
        have "x \<noteq> c" using x Some fl3(1) [OF a] by auto
        then have "cell_at g3 x = Some u" using x by (simp add: cells3)
        then show "\<exists>c u. cell_at g3 c = Some u \<and> player u = Attacker \<and> type u = AI"
          using x by blast
      qed
      show "defender_has_ai g3 \<longrightarrow> (\<exists>c u. cell_at g3 c = Some u \<and> player u = Defender \<and> type u = AI)"
      proof
        assume a: "defender_has_ai g3"
        with fl3(2) obtain x u where x: "cell_at g x = Some u" "player u = Defender" "type u = AI"
          using assms by (auto simp: wf_game_cells)
        have "x \<noteq> c" using x Some fl3(2) [OF a] by auto
        then have "cell_at g3 x = Some u" using x by (simp add: cells3)
        then show "\<exists>c u. cell_at g3 c = Some u \<and> player u = Defender \<and> type u = AI"
          using x by blast
      qed
    qed
    then show ?thesis using mh rd opt3 by simp
  qed
qed

lemma mod_health_all_wf:
  "wf_game g \<Longrightarrow> \<exists>g'. mod_health_all g cs d = Inr g' \<and> wf_game g' \<and> options g' = options g
              \<and> next_player g' = next_player g \<and> turns_played g' = turns_played g"
proof (induction cs arbitrary: g)
  case Nil
  then show ?case by simp
next
  case (Cons c cs)
  from mod_health_wf [OF Cons.prems, of c d]
  obtain g1 where g1: "mod_health g c d = Inr g1" "wf_game g1" "options g1 = options g"
      "next_player g1 = next_player g" "turns_played g1 = turns_played g" by blast
  from Cons.IH [OF g1(2)] show ?case using g1 by auto
qed


lemma predicates_wf:
  assumes "wf_board g"
  shows "is_valid_attack g mv = Inr True \<or> is_valid_attack g mv = Inr False"
    and "is_valid_repair g mv = Inr True \<or> is_valid_repair g mv = Inr False"
    and "can_self_destruct g mv = Inr True \<or> can_self_destruct g mv = Inr False"
    and "is_valid_attack g mv = Inr True \<Longrightarrow>
           \<exists>s t. cell_at g (src mv) = Some s \<and> cell_at g (dst mv) = Some t"
    and "is_valid_repair g mv = Inr True \<Longrightarrow>
           \<exists>s t. cell_at g (src mv) = Some s \<and> cell_at g (dst mv) = Some t"
    and "can_self_destruct g mv = Inr True \<longleftrightarrow> (\<exists>u. cell_at g (src mv) = Some u) \<and> src mv = dst mv"
  unfolding is_valid_attack_def is_valid_repair_def can_self_destruct_def
  by (auto simp: get_wf [OF assms] cell_at_def split: option.splits if_splits)

lemma Coord_to_string_total:
  assumes "- 26 \<le> row c" "- 16 \<le> col c"
  shows "\<exists>s. Coord_to_string c = Inr s"
proof -
  have r: "\<exists>s. row_string c = Inr s"
    using assms(1) by (auto simp: row_string_def py_index_def)
  have k: "\<exists>s. col_string c = Inr s"
    using assms(2) by (auto simp: col_string_def py_index_def)
  from r k show ?thesis by (auto simp: Coord_to_string_def)
qed

lemma descriptions_total:
  assumes "- 26 \<le> row (src mv)" "- 16 \<le> col (src mv)" "- 26 \<le> row (dst mv)" "- 16 \<le> col (dst mv)"
  shows "\<exists>t. with_description (action_taken_str g kind mv) ok g' = Inr (ok, t, g')"
    and "\<exists>t. with_description (invalid_move_str g mv) ok g' = Inr (ok, t, g')"
  using Coord_to_string_total [OF assms(1,2)] Coord_to_string_total [OF assms(3,4)]
  by (auto simp: with_description_def action_taken_str_def invalid_move_str_def)

lemma move_wf:
  assumes "wf_game g" "is_valid_move g mv = Inr True"
  shows "\<exists>u g1 g2. get g (src mv) = Inr u \<and> set_cell g (dst mv) u = Inr g1
           \<and> set_cell g1 (src mv) None = Inr g2 \<and> wf_game g2 \<and> options g2 = options g
           \<and> next_player g2 = next_player g \<and> turns_played g2 = turns_played g"
proof -
  from assms have wfb: "wf_board g" by (simp add: wf_game_cells)
  from assms(2) obtain unit where u: "is_valid_coord g (src mv)" "is_valid_coord g (dst mv)"
      "cell_at g (src mv) = Some unit" "cell_at g (dst mv) = None"
    unfolding is_valid_move_wf [OF wfb] by auto
  then have ne: "src mv \<noteq> dst mv" by auto
  from set_cell_wf [OF wfb, of "dst mv" "Some unit"] u(2)
  obtain b1 where b1: "set_cell g (dst mv) (Some unit) = Inr (g\<lparr>board := b1\<rparr>)"
      "wf_board (g\<lparr>board := b1\<rparr>)"
      "\<And>c'. cell_at (g\<lparr>board := b1\<rparr>) c' = (if c' = dst mv then Some unit else cell_at g c')"
    by auto
  have v1: "is_valid_coord (g\<lparr>board := b1\<rparr>) (src mv)" using u(1) by (simp add: is_valid_coord_def)
  from set_cell_wf [OF b1(2), of "src mv" None] v1
  obtain b2 where b2: "set_cell (g\<lparr>board := b1\<rparr>) (src mv) None = Inr (g\<lparr>board := b2\<rparr>)"
      "wf_board (g\<lparr>board := b2\<rparr>)"
      "\<And>c'. cell_at (g\<lparr>board := b2\<rparr>) c' = (if c' = src mv then None else cell_at (g\<lparr>board := b1\<rparr>) c')"
    by auto
  let ?g2 = "g\<lparr>board := b2\<rparr>"
  have cells: "\<And>c'. cell_at ?g2 c' = (if c' = src mv then None else if c' = dst mv then Some unit
                                         else cell_at g c')"
    by (simp add: b2(3) b1(3))
  have ai: "\<exists>c u. cell_at ?g2 c = Some u \<and> player u = p \<and> type u = AI"
    if "\<exists>c u. cell_at g c = Some u \<and> player u = p \<and> type u = AI" for p
  proof -
    from that obtain x w where x: "cell_at g x = Some w" "player w = p" "type w = AI" by blast
    show ?thesis
    proof (cases "x = src mv")
      case True
      then have "cell_at ?g2 (dst mv) = Some w" using x u(3) ne by (simp add: cells)
      then show ?thesis using x by blast
    next
      case False
      moreover have "x \<noteq> dst mv" using x u(4) by auto
      ultimately have "cell_at ?g2 x = Some w" using x by (simp add: cells)
      then show ?thesis using x by blast
    qed
  qed
  have "wf_game ?g2"
    unfolding wf_game_cells
  proof (intro conjI)
    show "wf_board ?g2" by (rule b2(2))
    show "dim (options ?g2) \<le> 41" using assms by (simp add: wf_game_cells)
    show "\<forall>c u. cell_at ?g2 c = Some u \<longrightarrow> 0 \<le> health u \<and> health u \<le> 9"
      using assms(1) u(3) by (auto simp: wf_game_cells cells split: if_splits)
    show "attacker_has_ai ?g2 \<longrightarrow> (\<exists>c u. cell_at ?g2 c = Some u \<and> player u = Attacker \<and> type u = AI)"
      using assms(1) ai [of Attacker] by (simp add: wf_game_cells)
    show "defender_has_ai ?g2 \<longrightarrow> (\<exists>c u. cell_at ?g2 c = Some u \<and> player u = Defender \<and> type u = AI)"
      using assms(1) ai [of Defender] by (simp add: wf_game_cells)
  qed
  then show ?thesis
    using b1(1) b2(1) u(3) by (intro exI [of _ "Some unit"] exI [of _ "g\<lparr>board := b1\<rparr>"] exI [of _ ?g2])
      (simp add: get_wf [OF wfb])
qed

lemma perform_move_wf:
  assumes "wf_game g" "printable mv"
  shows "\<exists>ok t g'. perform_move g mv = Inr (ok, t, g') \<and> wf_game g' \<and> options g' = options g
           \<and> next_player g' = next_player g \<and> turns_played g' = turns_played g
           \<and> (can_self_destruct g mv = Inr True \<longrightarrow> ok)
           \<and> (\<not> ok \<longrightarrow> g' = g)"
proof -
  from assms have wfb: "wf_board g" by (simp add: wf_game_cells)
  note d = descriptions_total [OF assms(2) [unfolded printable_def, THEN conjunct1]
      assms(2) [unfolded printable_def, THEN conjunct2, THEN conjunct1]
      assms(2) [unfolded printable_def, THEN conjunct2, THEN conjunct2, THEN conjunct1]
      assms(2) [unfolded printable_def, THEN conjunct2, THEN conjunct2, THEN conjunct2]]
  have mvb: "is_valid_move g mv = Inr True \<or> is_valid_move g mv = Inr False"
    unfolding is_valid_move_wf [OF wfb] by auto
  show ?thesis
  proof (cases "is_valid_move g mv = Inr True")
    case True
    from move_wf [OF assms(1) True]
    obtain u g1 g2 where m: "get g (src mv) = Inr u" "set_cell g (dst mv) u = Inr g1"
        "set_cell g1 (src mv) None = Inr g2" "wf_game g2" "options g2 = options g"
        "next_player g2 = next_player g" "turns_played g2 = turns_played g" by blast
    from d(1) [of g2 "''move''" True g2] obtain t where
      "with_description (action_taken_str g2 ''move'' mv) True g2 = Inr (True, t, g2)" by blast
    then show ?thesis using True m
      by (intro exI [of _ True] exI [of _ t] exI [of _ g2]) (simp add: perform_move_def)
  next
    case nomove: False
    then have nm: "is_valid_move g mv = Inr False" using mvb by blast
    show ?thesis
    proof (cases "is_valid_attack g mv = Inr True")
      case True
      from predicates_wf(4) [OF wfb True] obtain s t where
        st: "cell_at g (src mv) = Some s" "cell_at g (dst mv) = Some t" by blast
      from mod_health_wf [OF assms(1), of "src mv" "- damage_amount t s"]
      obtain g1 where g1: "mod_health g (src mv) (- damage_amount t s) = Inr g1" "wf_game g1"
          "options g1 = options g" "next_player g1 = next_player g" "turns_played g1 = turns_played g"
        by blast
      from mod_health_wf [OF g1(2), of "dst mv" "- damage_amount s t"]
      obtain g2 where g2: "mod_health g1 (dst mv) (- damage_amount s t) = Inr g2" "wf_game g2"
          "options g2 = options g1" "next_player g2 = next_player g1" "turns_played g2 = turns_played g1"
        by blast
      from d(1) [of g2 "''attack''" True g2] obtain tx where
        "with_description (action_taken_str g2 ''attack'' mv) True g2 = Inr (True, tx, g2)" by blast
      then show ?thesis
        using True nm st g1 g2
        by (intro exI [of _ True] exI [of _ tx] exI [of _ g2])
           (simp add: perform_move_def get_wf [OF wfb] Let_def)
    next
      case noatt: False
      then have na: "is_valid_attack g mv = Inr False" using predicates_wf(1) [OF wfb] by blast
      show ?thesis
      proof (cases "is_valid_repair g mv = Inr True")
        case True
        from predicates_wf(5) [OF wfb True] obtain s t where
          st: "cell_at g (src mv) = Some s" "cell_at g (dst mv) = Some t" by blast
        from mod_health_wf [OF assms(1), of "dst mv" "repair_amount s t"]
        obtain g1 where g1: "mod_health g (dst mv) (repair_amount s t) = Inr g1" "wf_game g1"
            "options g1 = options g" "next_player g1 = next_player g" "turns_played g1 = turns_played g"
          by blast
        from d(1) [of g1 "''repair''" True g1] obtain tx where
          "with_description (action_taken_str g1 ''repair'' mv) True g1 = Inr (True, tx, g1)" by blast
        then show ?thesis
          using True nm na st g1
          by (intro exI [of _ True] exI [of _ tx] exI [of _ g1])
             (simp add: perform_move_def get_wf [OF wfb])
      next
        case norep: False
        then have nr: "is_valid_repair g mv = Inr False" using predicates_wf(2) [OF wfb] by blast
        show ?thesis
        proof (cases "can_self_destruct g mv = Inr True")
          case True
          from mod_health_wf [OF assms(1), of "src mv" "- 9"]
          obtain g1 where g1: "mod_health g (src mv) (- 9) = Inr g1" "wf_game g1"
              "options g1 = options g" "next_player g1 = next_player g" "turns_played g1 = turns_played g"
            by blast
          from mod_health_all_wf [OF g1(2), of "iter_range (src mv) 1" "- 2"]
          obtain g2 where g2: "mod_health_all g1 (iter_range (src mv) 1) (- 2) = Inr g2" "wf_game g2"
              "options g2 = options g1" "next_player g2 = next_player g1" "turns_played g2 = turns_played g1"
            by blast
          from d(1) [of g2 "''self-destruct''" True g2] obtain tx where
            "with_description (action_taken_str g2 ''self-destruct'' mv) True g2 = Inr (True, tx, g2)"
            by blast
          then show ?thesis
            using True nm na nr g1 g2
            by (intro exI [of _ True] exI [of _ tx] exI [of _ g2]) (simp add: perform_move_def)
        next
          case False
          then have ns: "can_self_destruct g mv = Inr False" using predicates_wf(3) [OF wfb] by blast
          from d(2) [of g False g] obtain tx where
            "with_description (invalid_move_str g mv) False g = Inr (False, tx, g)" by blast
          then show ?thesis
            using nm na nr ns assms(1)
            by (intro exI [of _ False] exI [of _ tx] exI [of _ g]) (simp add: perform_move_def)
        qed
      qed
    qed
  qed
qed

subsection \<open>Successors of a well-formed game\<close>

lemma next_turn_wf [simp]: "wf_game (next_turn g) = wf_game g"
  by (simp add: wf_game_def next_turn_def wf_board_def)

lemma player_units_from_wf:
  assumes "wf_board g"
  shows "player_units_from g p cs
         = (map (\<lambda>c. (c, the (cell_at g c)))
              (filter (\<lambda>c. \<exists>u. cell_at g c = Some u \<and> player u = p) cs), None)"
  by (induction cs) (auto simp: get_wf [OF assms] split: option.splits)

lemma mem_iter_rectangle:
  "c \<in> set (iter_rectangle (from_dim d))
   \<longleftrightarrow> 0 \<le> row c \<and> row c < d \<and> 0 \<le> col c \<and> col c < d"
proof
  assume "c \<in> set (iter_rectangle (from_dim d))"
  then show "0 \<le> row c \<and> row c < d \<and> 0 \<le> col c \<and> col c < d"
    unfolding iter_rectangle_def from_dim_def py_range_def by auto
next
  assume a: "0 \<le> row c \<and> row c < d \<and> 0 \<le> col c \<and> col c < d"
  have c: "c = \<lparr>row = row c, col = col c\<rparr>" by simp
  have "\<lparr>row = row c, col = col c\<rparr> \<in> set (iter_rectangle (from_dim d))"
    unfolding iter_rectangle_def from_dim_def py_range_def
    using a by (auto intro!: bexI [of _ "row c"] image_eqI [of _ _ "col c"])
  then show "c \<in> set (iter_rectangle (from_dim d))" using c by simp
qed

lemma length_iter_rectangle: "length (iter_rectangle (from_dim d)) = nat d * nat d"
  unfolding iter_rectangle_def from_dim_def py_range_def
  by (simp add: length_concat o_def sum_list_triv)

lemma player_units_wf:
  assumes "wf_board g"
  shows "snd (player_units g p) = None"
    and "(c, u) \<in> set (fst (player_units g p)) \<longleftrightarrow> cell_at g c = Some u \<and> player u = p"
proof -
  show "snd (player_units g p) = None"
    by (simp add: player_units_def player_units_from_wf [OF assms])
  have v: "cell_at g c = Some u \<Longrightarrow> c \<in> set (iter_rectangle (from_dim (dim (options g))))"
    by (auto simp: mem_iter_rectangle cell_at_def is_valid_coord_iff split: if_splits)
  show "(c, u) \<in> set (fst (player_units g p)) \<longleftrightarrow> cell_at g c = Some u \<and> player u = p"
    using v by (auto simp: player_units_def player_units_from_wf [OF assms])
qed

lemma try_candidate_wf:
  assumes "wf_game g" "printable mv"
  shows "try_candidate g mv = Inr None \<or> (\<exists>child. try_candidate g mv = Inr (Some child) \<and> wf_game child)"
    and "can_self_destruct g mv = Inr True \<Longrightarrow> \<exists>child. try_candidate g mv = Inr (Some child)"
proof -
  from perform_move_wf [OF assms]
  obtain ok t g' where r: "perform_move g mv = Inr (ok, t, g')" "wf_game g'"
      "can_self_destruct g mv = Inr True \<longrightarrow> ok" by blast
  show "try_candidate g mv = Inr None \<or> (\<exists>child. try_candidate g mv = Inr (Some child) \<and> wf_game child)"
    using r by (simp add: try_candidate_def)
  show "can_self_destruct g mv = Inr True \<Longrightarrow> \<exists>child. try_candidate g mv = Inr (Some child)"
    using r by (simp add: try_candidate_def)
qed

lemma printable_adjacent:
  assumes "0 \<le> row s" "0 \<le> col s" "d \<in> set (iter_adjacent s) \<or> d = s"
  shows "printable \<lparr>src = s, dst = d\<rparr>"
  using assms by (auto simp: printable_def iter_adjacent_def)

lemma children_adjacent_wf:
  assumes "wf_game g" "0 \<le> row s" "0 \<le> col s"
  shows "set ds \<subseteq> set (iter_adjacent s)
         \<Longrightarrow> snd (children_adjacent g s ds) = None
             \<and> (\<forall>c \<in> fst ` set (fst (children_adjacent g s ds)). wf_game c)"
proof (induction ds)
  case Nil
  then show ?case by simp
next
  case (Cons d ds)
  have p: "printable \<lparr>src = s, dst = d\<rparr>"
    using Cons.prems assms(2,3) by (intro printable_adjacent) auto
  from Cons have ih: "snd (children_adjacent g s ds) = None"
      "\<forall>c \<in> fst ` set (fst (children_adjacent g s ds)). wf_game c" by auto
  from try_candidate_wf(1) [OF assms(1) p] show ?case
    using ih by (auto split: prod.splits)
qed

lemma children_units_wf:
  assumes "wf_game g"
  shows "(\<And>s u. (s, u) \<in> set us \<Longrightarrow> cell_at g s = Some u)
         \<Longrightarrow> snd (children_units g us None) = None
             \<and> (\<forall>c \<in> fst ` set (fst (children_units g us None)). wf_game c)
             \<and> (us \<noteq> [] \<longrightarrow> fst (children_units g us None) \<noteq> [])"
proof (induction us)
  case Nil
  then show ?case by simp
next
  case (Cons x us)
  obtain s u where x: "x = (s, u)" by (cases x) auto
  from assms have wfb: "wf_board g" by (simp add: wf_game_cells)
  have cell: "cell_at g s = Some u" using Cons.prems x by auto
  then have nn: "0 \<le> row s" "0 \<le> col s"
    by (auto simp: cell_at_def is_valid_coord_iff split: if_splits)
  from children_adjacent_wf [OF assms nn, of "iter_adjacent s"]
  obtain xs where xs: "children_adjacent g s (iter_adjacent s) = (xs, None)"
      "\<forall>c \<in> fst ` set xs. wf_game c"
    by (cases "children_adjacent g s (iter_adjacent s)") auto
  have p: "printable \<lparr>src = s, dst = s\<rparr>" using nn by (intro printable_adjacent) auto
  have sd: "can_self_destruct g \<lparr>src = s, dst = s\<rparr> = Inr True"
    using cell by (simp add: predicates_wf(6) [OF wfb])
  from try_candidate_wf(2) [OF assms p sd] try_candidate_wf(1) [OF assms p]
  obtain child where child: "try_candidate g \<lparr>src = s, dst = s\<rparr> = Inr (Some child)" "wf_game child"
    by auto
  from Cons have ih: "snd (children_units g us None) = None"
      "\<forall>c \<in> fst ` set (fst (children_units g us None)). wf_game c" by auto
  show ?case
    using xs child ih by (auto simp: x split: prod.splits)
qed

lemma get_children_wf:
  assumes "wf_game g"
  shows "snd (get_children g) = None \<and> (\<forall>c \<in> fst ` set (fst (get_children g)). wf_game c)"
    and "\<not> is_finished g \<Longrightarrow> fst (get_children g) \<noteq> []"
proof -
  from assms have wfb: "wf_board g" by (simp add: wf_game_cells)
  obtain us where us: "player_units g (next_player g) = (us, None)"
    using player_units_wf(1) [OF wfb, of "next_player g"]
    by (cases "player_units g (next_player g)") auto
  have cells: "\<And>s u. (s, u) \<in> set us \<Longrightarrow> cell_at g s = Some u"
    using player_units_wf(2) [OF wfb, of _ _ "next_player g"] us by auto
  note cu = children_units_wf [OF assms cells]
  show "snd (get_children g) = None \<and> (\<forall>c \<in> fst ` set (fst (get_children g)). wf_game c)"
    using cu us by (simp add: get_children_def)
  show "fst (get_children g) \<noteq> []" if "\<not> is_finished g"
  proof -
    from that have flags: "attacker_has_ai g" "defender_has_ai g"
      by (auto simp: is_finished_def has_winner_def split: if_splits)
    have "\<exists>c u. cell_at g c = Some u \<and> player u = next_player g"
      using assms flags by (cases "next_player g") (auto simp: wf_game_cells)
    then obtain c u where "(c, u) \<in> set us"
      using player_units_wf(2) [OF wfb, of _ _ "next_player g"] us by auto
    then have "us \<noteq> []" by auto
    then show ?thesis using cu us by (simp add: get_children_def)
  qed
qed

subsection \<open>Heuristic scores of a well-formed game\<close>

lemma player_units_lengths:
  assumes "wf_board g"
  shows "length (fst (player_units g Attacker)) + length (fst (player_units g Defender))
         \<le> nat (dim (options g)) * nat (dim (options g))"
proof -
  have "length (filter (\<lambda>c. \<exists>u. cell_at g c = Some u \<and> player u = Attacker) cs)
        + length (filter (\<lambda>c. \<exists>u. cell_at g c = Some u \<and> player u = Defender) cs) \<le> length cs"
    for cs
    by (induction cs) auto
  then show ?thesis
    by (simp add: player_units_def player_units_from_wf [OF assms] length_iter_rectangle [symmetric])
qed

lemma e0_loop_bounds:
  "count \<le> e0_loop us count \<and> e0_loop us count \<le> count + 9999 * int (length us)"
proof (induction us arbitrary: count)
  case Nil
  then show ?case by simp
next
  case (Cons x us)
  obtain c u where x: "x = (c, u)" by (cases x) auto
  let ?c = "(if type u \<in> {Virus, Tech, Firewall, Program} then count + 3
             else if type u = AI then count + 9999 else count)"
  have "count \<le> ?c" "?c \<le> count + 9999" by auto
  with Cons.IH [of ?c] show ?case by (simp add: x del: insert_iff) 
qed

lemma e1_loop_bounds:
  "(\<And>c u. (c, u) \<in> set us \<Longrightarrow> 0 \<le> health u \<and> health u \<le> 9)
   \<Longrightarrow> count \<le> e1_loop us count \<and> e1_loop us count \<le> count + 8991 * int (length us)"
proof (induction us arbitrary: count)
  case Nil
  then show ?case by simp
next
  case (Cons x us)
  obtain c u where x: "x = (c, u)" by (cases x) auto
  have h: "0 \<le> health u" "health u \<le> 9" using Cons.prems [of c u] x by auto
  let ?c = "(if type u \<in> {Virus, Tech, Firewall, Program} then count + 3 * health u
             else if type u = AI then count + 999 * health u else count)"
  have "count \<le> ?c" "?c \<le> count + 8991" using h by auto
  moreover have "?c \<le> e1_loop us ?c \<and> e1_loop us ?c \<le> ?c + 8991 * int (length us)"
    by (rule Cons.IH) (use Cons.prems in auto)
  ultimately show ?case by (simp add: x del: insert_iff)
qed

lemma repair_amount_le_3: "repair_amount a t \<le> 3"
  by (cases "type a"; cases "type t") (auto simp: repair_amount_def repair_table_def Let_def)

lemma helper_e2_adj_bounds:
  assumes "wf_board g" "0 \<le> health unit" "health unit \<le> 9"
  shows "\<exists>r. helper_e2_adj g unit cs count = Inr r
            \<and> count - 89991 * int (length cs) \<le> r \<and> r \<le> count + 30996 * int (length cs)"
proof (induction cs arbitrary: count)
  case Nil
  then show ?case by simp
next
  case (Cons c cs)
  note ih = Cons.IH
  show ?case
  proof (cases "cell_at g c")
    case None
    then show ?thesis using ih [of count] by (auto simp: get_wf [OF assms(1)])
  next
    case (Some a)
    define pen where "pen = (if type unit \<in> {Firewall, Program} then count - 2 * health unit
                  else if type unit \<in> {Virus, Tech} then count - 5 * health unit
                  else if type unit = AI then count - 9999 * health unit
                  else count)"
    define count1 where "count1 = (if type unit = AI then count + 999 else count)"
    define bonus where "bonus = (if type unit \<in> {Firewall, Program} then count1 + 2 * repair_amount a unit
                     else if type unit \<in> {Virus, Tech} then count1 + 5 * repair_amount a unit
                     else if type unit = AI then count1 + 9999 * repair_amount a unit
                     else count1)"
    have pen: "count - 89991 \<le> pen" "pen \<le> count"
      using assms(2,3) by (auto simp: pen_def)
    have c1: "count \<le> count1" "count1 \<le> count + 999" by (auto simp: count1_def)
    have bonus: "0 < repair_amount a unit \<Longrightarrow> count \<le> bonus \<and> bonus \<le> count + 30996"
      using c1 repair_amount_le_3 [of a unit] by (auto simp: bonus_def)
    have step: "helper_e2_adj g unit (c # cs) count =
          (if player a \<noteq> next_player g then
             (if damage_amount a unit \<ge> health unit then helper_e2_adj g unit cs pen
              else helper_e2_adj g unit cs count)
           else if repair_amount a unit > 0 \<and> health unit < 9 then helper_e2_adj g unit cs bonus
           else helper_e2_adj g unit cs count1)"
      by (simp add: get_wf [OF assms(1)] Some pen_def bonus_def count1_def Let_def del: insert_iff)
    show ?thesis
      unfolding step
      using ih [of pen] ih [of count] ih [of bonus] ih [of count1] pen c1 bonus
      by (auto simp del: insert_iff)
  qed
qed


lemma length_iter_range_1: "length (iter_range c 1) = 9"
  unfolding iter_range_def py_range_def
  by (simp add: length_concat o_def sum_list_triv)

lemma helper_e2_loop_bounds:
  assumes "wf_board g"
  shows "(\<And>c u. (c, u) \<in> set us \<Longrightarrow> 0 \<le> health u \<and> health u \<le> 9)
         \<Longrightarrow> \<exists>r. helper_e2_loop g us count = Inr r
               \<and> count - 809919 * int (length us) \<le> r \<and> r \<le> count + 1178955 * int (length us)"
proof (induction us arbitrary: count)
  case Nil
  then show ?case by simp
next
  case (Cons x us)
  obtain c u where x: "x = (c, u)" by (cases x) auto
  have h: "0 \<le> health u" "health u \<le> 9" using Cons.prems [of c u] x by auto
  define count1 where "count1 = (if type u \<in> {Firewall, Program} then count + 3 * health u
         else if type u \<in> {Virus, Tech} then count + 9 * health u
         else if type u = AI then count + 99999 * health u
         else count)"
  have c1: "count \<le> count1" "count1 \<le> count + 899991" using h by (auto simp: count1_def)
  from helper_e2_adj_bounds [OF assms h, of "iter_range c 1" count1]
  obtain r1 where r1: "helper_e2_adj g u (iter_range c 1) count1 = Inr r1"
      "count1 - 809919 \<le> r1" "r1 \<le> count1 + 278964"
    by (auto simp: length_iter_range_1)
  have "\<exists>r. helper_e2_loop g us r1 = Inr r
               \<and> r1 - 809919 * int (length us) \<le> r \<and> r \<le> r1 + 1178955 * int (length us)"
    by (rule Cons.IH) (use Cons.prems in auto)
  then obtain r where r: "helper_e2_loop g us r1 = Inr r"
      "r1 - 809919 * int (length us) \<le> r" "r \<le> r1 + 1178955 * int (length us)" by blast
  have step: "helper_e2_loop g (x # us) count = Inr r"
    using r1(1) r(1) by (simp add: x count1_def Let_def del: insert_iff)
  show ?case
    unfolding step using c1 r1(2,3) r(2,3) by simp
qed

lemma units_health:
  assumes "wf_game g" "(c, u) \<in> set (fst (player_units g p))"
  shows "0 \<le> health u \<and> health u \<le> 9"
proof -
  from assms(1) have wfb: "wf_board g" by (simp add: wf_game_cells)
  from assms(2) have "cell_at g c = Some u" by (simp add: player_units_wf(2) [OF wfb])
  then show ?thesis using assms(1) by (auto simp: wf_game_cells)
qed

lemma units_count:
  assumes "wf_game g"
  shows "int (length (fst (player_units g Attacker))) + int (length (fst (player_units g Defender)))
         \<le> 1681"
proof -
  from assms have wfb: "wf_board g" and d: "dim (options g) \<le> 41" by (simp_all add: wf_game_cells)
  have le: "nat (dim (options g)) \<le> 41" using d by linarith
  have "nat (dim (options g)) * nat (dim (options g)) \<le> 41 * 41"
    by (rule mult_le_mono [OF le le])
  with player_units_lengths [OF wfb] show ?thesis by simp
qed

lemma heuristic_in_window:
  assumes "wf_game g"
  shows "\<exists>v. e g = Inr v \<and> MIN_HEURISTIC_SCORE \<le> v \<and> v \<le> MAX_HEURISTIC_SCORE"
proof -
  from assms have wfb: "wf_board g" by (simp add: wf_game_cells)
  obtain ua where ua: "player_units g Attacker = (ua, None)"
    using player_units_wf(1) [OF wfb, of Attacker] by (cases "player_units g Attacker") auto
  obtain ud where ud: "player_units g Defender = (ud, None)"
    using player_units_wf(1) [OF wfb, of Defender] by (cases "player_units g Defender") auto
  have n: "int (length ua) + int (length ud) \<le> 1681"
    using units_count [OF assms] ua ud by simp
  have ha: "\<And>c u. (c, u) \<in> set ua \<Longrightarrow> 0 \<le> health u \<and> health u \<le> 9"
    using units_health [OF assms, of _ _ Attacker] ua by simp
  have hd: "\<And>c u. (c, u) \<in> set ud \<Longrightarrow> 0 \<le> health u \<and> health u \<le> 9"
    using units_health [OF assms, of _ _ Defender] ud by simp
  have e0: "\<exists>v. e0 g = Inr v \<and> MIN_HEURISTIC_SCORE \<le> v \<and> v \<le> MAX_HEURISTIC_SCORE"
    using e0_loop_bounds [of 0 ua] e0_loop_bounds [of 0 ud] n
    by (simp add: e0_def ua ud exhaust_def MIN_HEURISTIC_SCORE_def MAX_HEURISTIC_SCORE_def)
  have e1a: "0 \<le> e1_loop ua 0 \<and> e1_loop ua 0 \<le> 0 + 8991 * int (length ua)"
    by (rule e1_loop_bounds) (rule ha)
  have e1d: "0 \<le> e1_loop ud 0 \<and> e1_loop ud 0 \<le> 0 + 8991 * int (length ud)"
    by (rule e1_loop_bounds) (rule hd)
  have e1: "\<exists>v. e1 g = Inr v \<and> MIN_HEURISTIC_SCORE \<le> v \<and> v \<le> MAX_HEURISTIC_SCORE"
    using e1a e1d n
    by (simp add: e1_def ua ud exhaust_def MIN_HEURISTIC_SCORE_def MAX_HEURISTIC_SCORE_def)
  have "\<exists>r. helper_e2_loop g ua 0 = Inr r
               \<and> 0 - 809919 * int (length ua) \<le> r \<and> r \<le> 0 + 1178955 * int (length ua)"
    by (rule helper_e2_loop_bounds [OF wfb]) (rule ha)
  then obtain ra where ra: "helper_e2_loop g ua 0 = Inr ra"
      "- 809919 * int (length ua) \<le> ra" "ra \<le> 1178955 * int (length ua)" by auto
  have "\<exists>r. helper_e2_loop g ud 0 = Inr r
               \<and> 0 - 809919 * int (length ud) \<le> r \<and> r \<le> 0 + 1178955 * int (length ud)"
    by (rule helper_e2_loop_bounds [OF wfb]) (rule hd)
  then obtain rd where rd: "helper_e2_loop g ud 0 = Inr rd"
      "- 809919 * int (length ud) \<le> rd" "rd \<le> 1178955 * int (length ud)" by auto
  have e2: "\<exists>v. e2 g = Inr v \<and> MIN_HEURISTIC_SCORE \<le> v \<and> v \<le> MAX_HEURISTIC_SCORE"
    using ra rd n
    by (simp add: e2_def helper_e2_def ua ud exhaust_def MIN_HEURISTIC_SCORE_def MAX_HEURISTIC_SCORE_def)
  show ?thesis
    using e0 e1 e2 by (simp add: e_def)
qed

subsection \<open>Equal scores\<close>

text \<open>On every well-formed game (a \<open>dim\<close> x \<open>dim\<close> board with \<open>dim\<close> at most 41, every unit's
  health in [0,9], an AI on the board for each side whose has-AI flag is set), for every
  depth, heuristic selector and maximizing flag, when no clock reading is a time-out and the
  time-out flag is clear at entry, \<open>alpha_beta\<close> called with the full window and \<open>minimax\<close>
  both return, with the same score. On such a game every unfinished node has a successor, so
  the minimizing branch of \<open>alpha_beta\<close> always assigns its local \<open>branch_factor\<close>.\<close>

lemma alpha_beta_score_equals_minimax:
  assumes "wf_game node" and "\<forall>k. \<not> tm k"
    and "\<not> is_time_out self_a" and "\<not> is_time_out self_m"
  shows "\<exists>v ma sa mb sb.
           alpha_beta tm self_a node d MIN_HEURISTIC_SCORE MAX_HEURISTIC_SCORE maximizing
             = Inr ((v, ma), sa)
         \<and> minimax tm self_m node d maximizing = Inr ((v, mb), sb)"
proof (rule alpha_beta_agrees_with_minimax [where Inv = wf_game])
  show "\<And>k. \<not> tm k" using assms(2) by simp
  show "\<And>n. wf_game n \<Longrightarrow>
          \<exists>v. e n = Inr v \<and> MIN_HEURISTIC_SCORE \<le> v \<and> v \<le> MAX_HEURISTIC_SCORE"
    by (rule heuristic_in_window)
  show "\<And>n. wf_game n \<Longrightarrow> snd (get_children n) = None
                       \<and> (\<forall>c \<in> fst ` set (fst (get_children n)). wf_game c)"
    by (rule get_children_wf(1))
  show "\<And>n. wf_game n \<Longrightarrow> \<not> is_finished n \<Longrightarrow> fst (get_children n) \<noteq> []"
    by (rule get_children_wf(2))
qed (use assms in auto)

lemma alpha_beta_score_equals_minimax_start:
  "\<exists>v ma sa mb sb.
      alpha_beta no_time_out (start_game Attacker) (start_game Attacker) 2
          MIN_HEURISTIC_SCORE MAX_HEURISTIC_SCORE True = Inr ((v, ma), sa)
    \<and> minimax no_time_out (start_game Attacker) (start_game Attacker) 2 True = Inr ((v, mb), sb)"
proof (rule alpha_beta_score_equals_minimax)
  show "wf_game (start_game Attacker)" by (rule wf_game_start(1))
  show "\<forall>k. \<not> no_time_out k" by (simp add: no_time_out_def)
  show "\<not> is_time_out (start_game Attacker)" by (simp add: start_game_def)
  show "\<not> is_time_out (start_game Attacker)" by (simp add: start_game_def)
qed

text \<open>Claim C1. \<open>alpha_beta\<close> called with the full window and \<open>minimax\<close> are claimed to return
  the same best score for every game state, depth and maximizing flag when no time-out
  occurs. On the game constructed for a 2x2 board they do not, at depth 2 with no time-out:
  after a move of the Attacker the Defender is to move, has no unit and the game is not
  finished, so the minimizing branch of \<open>alpha_beta\<close>, which assigns its local
  \<open>branch_factor\<close> only inside the loop body, reads it unassigned and raises
  UnboundLocalError, while \<open>minimax\<close>, which assigns it before the loop, returns the score
  2000000000.\<close>

theorem alpha_beta_crash_counterexample:
  "Game_init Attacker (default_Options\<lparr>dim := 2\<rparr>) = Inr tiny_game
   \<and> alpha_beta no_time_out tiny_game tiny_game 2 MIN_HEURISTIC_SCORE MAX_HEURISTIC_SCORE True
       = Inl UnboundLocalError
   \<and> map_sum id (fst \<circ> fst) (minimax no_time_out tiny_game tiny_game 2 True) = Inr 2000000000"
  by code_simp

end
